theory Spec2Isabelle
  imports Main "HOL-Library.Monad_Syntax"
begin

section \<open>Batch audio channel splitter: the program\<close>

text \<open>
  The embedding follows \<^verbatim>\<open>channel-splitter.py\<close>. The file \<^verbatim>\<open>channelsplitter.py\<close> holds
  the same \<^verbatim>\<open>validate_grouping_pattern\<close>, the same writing loop and the same syntax
  check in \<^verbatim>\<open>main\<close>, and lacks \<^verbatim>\<open>check_files_exist\<close> and the overwrite prompt.
\<close>

subsection \<open>Python strings and the built-ins the program calls\<close>

text \<open>
  A Python \<^verbatim>\<open>str\<close> is a sequence of Unicode code points. \<open>ustr\<close> reads an ASCII
  literal as such a sequence.
\<close>

type_synonym codepoint = nat
type_synonym pystr = "codepoint list"

definition ustr :: "string \<Rightarrow> pystr" where
  "ustr s = map of_char s"

datatype error = ValueError | IndexError | EOFError | SystemExit int

text \<open>
  The code points with the Unicode property \<^verbatim>\<open>Decimal\<close> come in runs of ten, one run
  per script, with the values 0 to 9 in order: \<open>decimal_zeros\<close> lists the code point of
  each zero (Unicode 14, the table of CPython 3.11). The first run is ASCII \<^verbatim>\<open>0\<close> to
  \<^verbatim>\<open>9\<close>, the second the Arabic-Indic digits U+0660 to U+0669.
\<close>

definition decimal_zeros :: "codepoint list" where
  "decimal_zeros =
    [48, 1632, 1776, 1984, 2406, 2534, 2662, 2790, 2918, 3046, 3174, 3302, 3430, 3558,
     3664, 3792, 3872, 4160, 4240, 6112, 6160, 6470, 6608, 6784, 6800, 6992, 7088, 7232,
     7248, 42528, 43216, 43264, 43472, 43504, 43600, 44016, 65296, 66720, 68912, 69734,
     69872, 69942, 70096, 70384, 70736, 70864, 71248, 71360, 71472, 71904, 72016, 72784,
     73040, 73120, 92768, 92864, 93008, 120782, 120792, 120802, 120812, 120822, 123200,
     123632, 125264, 130032]"

definition decimal_value :: "codepoint \<Rightarrow> nat option" where
  "decimal_value c = map_option (\<lambda>z. c - z) (find (\<lambda>z. z \<le> c \<and> c \<le> z + 9) decimal_zeros)"

text \<open>
  The code points with the property \<^verbatim>\<open>Digit\<close> that are not \<^verbatim>\<open>Decimal\<close>: superscripts,
  subscripts, circled and parenthesised digits and the like. \<^verbatim>\<open>str.isdigit\<close> holds of
  them, and \<^verbatim>\<open>int\<close> raises \<^verbatim>\<open>ValueError\<close> on them.
\<close>

definition digit_only_ranges :: "(codepoint \<times> codepoint) list" where
  "digit_only_ranges =
    [(178, 179), (185, 185), (4969, 4977), (6618, 6618), (8304, 8304), (8308, 8313),
     (8320, 8329), (9312, 9320), (9332, 9340), (9352, 9360), (9450, 9450), (9461, 9469),
     (9471, 9471), (10102, 10110), (10112, 10120), (10122, 10130), (68160, 68163),
     (69216, 69224), (69714, 69722), (127232, 127242)]"

definition isdigit_char :: "codepoint \<Rightarrow> bool" where
  "isdigit_char c \<longleftrightarrow>
     decimal_value c \<noteq> None \<or> list_ex (\<lambda>(lo, hi). lo \<le> c \<and> c \<le> hi) digit_only_ranges"

text \<open>\<^verbatim>\<open>str.isdigit()\<close>: at least one character, and every character a digit.\<close>

definition str_isdigit :: "pystr \<Rightarrow> bool" where
  "str_isdigit s \<longleftrightarrow> s \<noteq> [] \<and> list_all isdigit_char s"

text \<open>
  \<^verbatim>\<open>int(s)\<close> for a string of one character, the only strings the program converts:
  the character's decimal value, \<^verbatim>\<open>ValueError\<close> when it has none.
\<close>

definition int_char :: "codepoint \<Rightarrow> error + int" where
  "int_char c = (case decimal_value c of None \<Rightarrow> Inl ValueError | Some d \<Rightarrow> Inr (int d))"

text \<open>\<^verbatim>\<open>str(i)\<close> and \<^verbatim>\<open>f"{i}"\<close> for an integer: its decimal numeral.\<close>

fun digits_of :: "nat \<Rightarrow> pystr" where
  "digits_of n = (if n < 10 then [48 + n] else digits_of (n div 10) @ [48 + n mod 10])"

declare digits_of.simps [simp del]

definition str_int :: "int \<Rightarrow> pystr" where
  "str_int i = (if i < 0 then 45 # digits_of (nat (- i)) else digits_of (nat i))"

text \<open>
  \<^verbatim>\<open>str.lower()\<close> on ASCII. The Unicode lower-case mapping outside ASCII is not
  reproduced: the program only compares the result with \<^verbatim>\<open>'y'\<close>, no code point
  other than \<^verbatim>\<open>Y\<close> and \<^verbatim>\<open>y\<close> has the lower case \<^verbatim>\<open>y\<close>, and lower-casing never
  shortens a string, so that comparison is the same.
\<close>

definition lower_char :: "codepoint \<Rightarrow> codepoint" where
  "lower_char c = (if 65 \<le> c \<and> c \<le> 90 then c + 32 else c)"

definition str_lower :: "pystr \<Rightarrow> pystr" where
  "str_lower s = map lower_char s"

text \<open>\<^verbatim>\<open>str.rfind\<close> for a needle of one character: the last index, or -1.\<close>

fun rfind_from :: "pystr \<Rightarrow> codepoint \<Rightarrow> int \<Rightarrow> int \<Rightarrow> int" where
  "rfind_from [] c i found = found"
| "rfind_from (x # xs) c i found = rfind_from xs c (i + 1) (if x = c then i else found)"

definition rfind :: "pystr \<Rightarrow> codepoint \<Rightarrow> int" where
  "rfind p c = rfind_from p c 0 (- 1)"

text \<open>
  \<^verbatim>\<open>os.path.splitext\<close>, that is \<^verbatim>\<open>genericpath._splitext\<close>: the extension starts at the
  last dot of the last path component, unless only dots precede it there. The loop
  \<^verbatim>\<open>while filenameIndex < dotIndex\<close> is \<open>skip_leading_dots\<close>.
\<close>

function skip_leading_dots :: "pystr \<Rightarrow> codepoint \<Rightarrow> nat \<Rightarrow> nat \<Rightarrow> pystr \<times> pystr" where
  "skip_leading_dots p extsep filenameIndex dotIndex =
     (if filenameIndex < dotIndex then
        (if take 1 (drop filenameIndex p) \<noteq> [extsep] then (take dotIndex p, drop dotIndex p)
         else skip_leading_dots p extsep (filenameIndex + 1) dotIndex)
      else (p, []))"
  by pat_completeness auto
termination
  by (relation "measure (\<lambda>(p, extsep, filenameIndex, dotIndex). dotIndex - filenameIndex)") auto

declare skip_leading_dots.simps [simp del]

definition genericpath_splitext ::
  "pystr \<Rightarrow> codepoint \<Rightarrow> codepoint option \<Rightarrow> codepoint \<Rightarrow> pystr \<times> pystr" where
  "genericpath_splitext p sep altsep extsep =
     (let sepIndex = (case altsep of None \<Rightarrow> rfind p sep
                      | Some a \<Rightarrow> max (rfind p sep) (rfind p a));
          dotIndex = rfind p extsep
      in if dotIndex > sepIndex
         then skip_leading_dots p extsep (nat (sepIndex + 1)) (nat dotIndex)
         else (p, []))"

datatype os = Posix | Nt

definition os_path_splitext :: "os \<Rightarrow> pystr \<Rightarrow> pystr \<times> pystr" where
  "os_path_splitext os_name p =
     (case os_name of
        Posix \<Rightarrow> genericpath_splitext p 47 None 46
      | Nt \<Rightarrow> genericpath_splitext p 92 (Some 47) 46)"

subsection \<open>What the program reads and what it does\<close>

text \<open>
  The world as the program reads it: the platform, the command found by
  \<^verbatim>\<open>check_sox_installed\<close> (\<open>None\<close> when SoX is missing), the file system, and the
  channel count the backend reports for a file: \<open>None\<close> where
  \<^verbatim>\<open>int(result.stdout.strip())\<close> raises \<^verbatim>\<open>ValueError\<close>. The query of
  \<^verbatim>\<open>split_channels\<close>, by the command found, and the query of \<^verbatim>\<open>check_files_exist\<close>,
  by the name \<^verbatim>\<open>sox\<close>, get the same answer.
\<close>

record world =
  os_name :: os
  sox_found :: "pystr option"
  isfile :: "pystr \<Rightarrow> bool"
  path_exists :: "pystr \<Rightarrow> bool"
  channel_count :: "pystr \<Rightarrow> int option"

text \<open>One constructor for each \<^verbatim>\<open>print\<close> of the program, with the values it formats.\<close>

datatype message =
    Usage
  | Digits_only
  | File_not_found pystr
  | Channels_unreadable pystr
  | Total_channels pystr int
  | Same_as_total pystr int
  | Sum_exceeds int int
  | Existing_files "pystr list"
  | Overwrite_prompt
  | Exiting_without_changes
  | Saved pystr

text \<open>
  What a run does, in order: it prints, and it runs
  \<^verbatim>\<open>sox input_file output_file remix\<close> on a range of channels
  (\<^verbatim>\<open>remix_args\<close> before \<^verbatim>\<open>str\<close>).
\<close>

datatype event = Print message | Sox_remix pystr pystr "int list"

text \<open>
  How a call ends: \<open>None\<close> when it does not return, \<open>Some (Inl e)\<close> when it raises
  \<open>e\<close> and nothing catches it (what was printed and run before is then not kept),
  \<open>Some (Inr x)\<close> when it returns.
\<close>

type_synonym 'a outcome = "(error + 'a) option"

definition emit :: "event list \<Rightarrow> error + event list \<Rightarrow> error + event list" where
  "emit ev r = map_sum id (\<lambda>later. ev @ later) r"

subsection \<open>\<^verbatim>\<open>validate_grouping_pattern\<close>\<close>

text \<open>\<^verbatim>\<open>sum(int(digit) for digit in grouping_pattern)\<close>\<close>

fun sum_digits :: "pystr \<Rightarrow> error + int" where
  "sum_digits [] = Inr 0"
| "sum_digits (digit # rest) =
     (case int_char digit of
        Inl e \<Rightarrow> Inl e
      | Inr d \<Rightarrow> map_sum id (\<lambda>s. d + s) (sum_digits rest))"

text \<open>The result is what is printed and the value returned.\<close>

definition validate_grouping_pattern :: "pystr \<Rightarrow> int \<Rightarrow> error + message list \<times> bool" where
  "validate_grouping_pattern grouping_pattern total_channels =
     (case (if length grouping_pattern = 1
            then map_sum id (\<lambda>d. d = total_channels) (int_char (hd grouping_pattern))
            else Inr False) of
        Inl e \<Rightarrow> Inl e
      | Inr True \<Rightarrow> Inr ([Same_as_total grouping_pattern total_channels], False)
      | Inr False \<Rightarrow>
          (case sum_digits grouping_pattern of
             Inl e \<Rightarrow> Inl e
           | Inr total_pattern \<Rightarrow>
               if total_pattern > total_channels
               then Inr ([Sum_exceeds total_pattern total_channels], False)
               else Inr ([], True)))"

subsection \<open>The two loops\<close>

text \<open>The loop variables of \<^verbatim>\<open>check_files_exist\<close> and of \<^verbatim>\<open>split_channels\<close>.\<close>

record loop_vars =
  channel_start :: int
  remaining_channels :: int
  pattern_index :: nat

text \<open>
  One round of \<^verbatim>\<open>while remaining_channels > 0\<close> in \<^verbatim>\<open>check_files_exist\<close>. The list
  \<^verbatim>\<open>existing_files\<close> is carried along. \<^verbatim>\<open>grouping_pattern[-1]\<close> raises
  \<^verbatim>\<open>IndexError\<close> on the empty string.
\<close>

definition check_files_exist_body ::
  "world \<Rightarrow> pystr \<Rightarrow> pystr \<Rightarrow> loop_vars \<Rightarrow> pystr list \<Rightarrow> error + loop_vars \<times> pystr list" where
  "check_files_exist_body w input_file grouping_pattern v existing_files =
     (case (if pattern_index v < length grouping_pattern
            then map_sum id (\<lambda>d. (d, pattern_index v + 1))
                   (int_char (grouping_pattern ! pattern_index v))
            else if grouping_pattern = [] then Inl IndexError
            else map_sum id (\<lambda>d. (d, pattern_index v)) (int_char (last grouping_pattern))) of
        Inl e \<Rightarrow> Inl e
      | Inr (size_read, pattern_index') \<Rightarrow>
          (let group_size = (if size_read > remaining_channels v then 1 else size_read);
               group_name =
                 (if group_size = 1 then str_int (channel_start v)
                  else str_int (channel_start v) @ ustr ''-''
                       @ str_int (channel_start v + group_size - 1));
               (base_name, ext) = os_path_splitext (os_name w) input_file;
               output_file = base_name @ ustr ''['' @ group_name @ ustr '']'' @ ext
           in Inr (\<lparr>channel_start = channel_start v + group_size,
                     remaining_channels = remaining_channels v - group_size,
                     pattern_index = pattern_index'\<rparr>,
                   if path_exists w output_file then existing_files @ [output_file]
                   else existing_files)))"

partial_function (option) check_files_exist_while ::
  "world \<Rightarrow> pystr \<Rightarrow> pystr \<Rightarrow> loop_vars \<Rightarrow> pystr list \<Rightarrow> (pystr list) outcome" where
  "check_files_exist_while w input_file grouping_pattern v existing_files =
     (if remaining_channels v > 0 then
        (case check_files_exist_body w input_file grouping_pattern v existing_files of
           Inl e \<Rightarrow> Some (Inl e)
         | Inr (v', existing_files') \<Rightarrow>
             check_files_exist_while w input_file grouping_pattern v' existing_files')
      else Some (Inr existing_files))"

declare check_files_exist_while.simps [code]

text \<open>
  \<^verbatim>\<open>check_files_exist\<close> asks the backend for the channel count itself, and converts
  the answer outside any \<^verbatim>\<open>try\<close>.
\<close>

definition check_files_exist :: "world \<Rightarrow> pystr \<Rightarrow> pystr \<Rightarrow> (pystr list) outcome" where
  "check_files_exist w input_file grouping_pattern =
     (case channel_count w input_file of
        None \<Rightarrow> Some (Inl ValueError)
      | Some n \<Rightarrow>
          check_files_exist_while w input_file grouping_pattern
            \<lparr>channel_start = 1, remaining_channels = n, pattern_index = 0\<rparr> [])"

text \<open>
  One round of \<^verbatim>\<open>while remaining_channels > 0\<close> in \<^verbatim>\<open>split_channels\<close>: the new loop
  variables, and the backend call and the line printed.
\<close>

definition split_channels_body ::
  "world \<Rightarrow> pystr \<Rightarrow> pystr \<Rightarrow> loop_vars \<Rightarrow> error + loop_vars \<times> event list" where
  "split_channels_body w input_file grouping_pattern v =
     (case (if pattern_index v < length grouping_pattern
            then map_sum id (\<lambda>d. (d, pattern_index v + 1))
                   (int_char (grouping_pattern ! pattern_index v))
            else if grouping_pattern = [] then Inl IndexError
            else map_sum id (\<lambda>d. (d, pattern_index v)) (int_char (last grouping_pattern))) of
        Inl e \<Rightarrow> Inl e
      | Inr (size_read, pattern_index') \<Rightarrow>
          (let group_size = (if size_read > remaining_channels v then 1 else size_read);
               group_name =
                 (if group_size = 1 then str_int (channel_start v)
                  else str_int (channel_start v) @ ustr ''-''
                       @ str_int (channel_start v + group_size - 1));
               (base_name, ext) = os_path_splitext (os_name w) input_file;
               output_file = base_name @ ustr ''['' @ group_name @ ustr '']'' @ ext;
               remix_args = [channel_start v .. channel_start v + group_size - 1]
           in Inr (\<lparr>channel_start = channel_start v + group_size,
                     remaining_channels = remaining_channels v - group_size,
                     pattern_index = pattern_index'\<rparr>,
                   [Sox_remix input_file output_file remix_args, Print (Saved output_file)])))"

partial_function (option) split_channels_while ::
  "world \<Rightarrow> pystr \<Rightarrow> pystr \<Rightarrow> loop_vars \<Rightarrow> (event list) outcome" where
  "split_channels_while w input_file grouping_pattern v =
     (if remaining_channels v > 0 then
        (case split_channels_body w input_file grouping_pattern v of
           Inl e \<Rightarrow> Some (Inl e)
         | Inr (v', ev) \<Rightarrow>
             do { later \<leftarrow> split_channels_while w input_file grouping_pattern v';
                  Some (emit ev later) })
      else Some (Inr []))"

declare split_channels_while.simps [code]

subsection \<open>\<^verbatim>\<open>split_channels\<close> and \<^verbatim>\<open>main\<close>\<close>

text \<open>
  \<^verbatim>\<open>input()\<close> takes the next line of the standard input, \<^verbatim>\<open>EOFError\<close> when there
  is none. The result of \<open>split_channels\<close> is what it printed and ran, and the input
  lines left.
\<close>

definition split_channels ::
  "world \<Rightarrow> pystr \<Rightarrow> pystr \<Rightarrow> pystr \<Rightarrow> pystr list \<Rightarrow> (event list \<times> pystr list) outcome" where
  "split_channels w sox_command input_file grouping_pattern stdin =
     (case channel_count w input_file of
        None \<Rightarrow> Some (Inr ([Print (Channels_unreadable input_file)], stdin))
      | Some total_channels \<Rightarrow>
          (case validate_grouping_pattern grouping_pattern total_channels of
             Inl e \<Rightarrow> Some (Inl e)
           | Inr (printed, valid) \<Rightarrow>
               if \<not> valid
               then Some (Inr (Print (Total_channels input_file total_channels)
                               # map Print printed, stdin))
               else do {
                 checked \<leftarrow> check_files_exist w input_file grouping_pattern;
                 case checked of
                   Inl e \<Rightarrow> Some (Inl e)
                 | Inr existing_files \<Rightarrow>
                     (let before = [Print (Total_channels input_file total_channels)];
                          warned = before @ [Print (Existing_files existing_files),
                                             Print Overwrite_prompt];
                          start = \<lparr>channel_start = 1, remaining_channels = total_channels,
                                   pattern_index = 0\<rparr>
                      in if existing_files \<noteq> [] then
                           (case stdin of
                              [] \<Rightarrow> Some (Inl EOFError)
                            | user_input # stdin' \<Rightarrow>
                                if str_lower user_input \<noteq> ustr ''y''
                                then Some (Inr (warned @ [Print Exiting_without_changes], stdin'))
                                else do {
                                  written \<leftarrow> split_channels_while w input_file grouping_pattern start;
                                  Some (map_sum id (\<lambda>ev. (warned @ ev, stdin')) written) })
                         else do {
                           written \<leftarrow> split_channels_while w input_file grouping_pattern start;
                           Some (map_sum id (\<lambda>ev. (before @ ev, stdin)) written) })
               }))"

text \<open>
  The backend's effect on the file system is not the program's: \<open>backend\<close> gives the
  world after one \<^verbatim>\<open>sox ... remix\<close> call, and \<open>after_events\<close> the world after a file
  has been processed.
\<close>

type_synonym backend = "pystr \<Rightarrow> pystr \<Rightarrow> int list \<Rightarrow> world \<Rightarrow> world"

fun after_events :: "backend \<Rightarrow> event list \<Rightarrow> world \<Rightarrow> world" where
  "after_events backend [] w = w"
| "after_events backend (Sox_remix input_file output_file remix_args # ev) w =
     after_events backend ev (backend input_file output_file remix_args w)"
| "after_events backend (Print m # ev) w = after_events backend ev w"

text \<open>The loop \<^verbatim>\<open>for input_file in input_files\<close> of \<^verbatim>\<open>main\<close>.\<close>

fun process_files ::
  "backend \<Rightarrow> world \<Rightarrow> pystr \<Rightarrow> pystr \<Rightarrow> pystr list \<Rightarrow> pystr list
     \<Rightarrow> (event list \<times> pystr list) outcome" where
  "process_files backend w sox_command grouping_pattern [] stdin = Some (Inr ([], stdin))"
| "process_files backend w sox_command grouping_pattern (input_file # input_files) stdin =
     (if \<not> isfile w input_file then
        do { later \<leftarrow> process_files backend w sox_command grouping_pattern input_files stdin;
             Some (map_sum id (\<lambda>(ev, left). (Print (File_not_found input_file) # ev, left)) later) }
      else
        do { done \<leftarrow> split_channels w sox_command input_file grouping_pattern stdin;
             case done of
               Inl e \<Rightarrow> Some (Inl e)
             | Inr (ev, stdin') \<Rightarrow>
                 do { later \<leftarrow> process_files backend (after_events backend ev w) sox_command
                                grouping_pattern input_files stdin';
                      Some (map_sum id (\<lambda>(ev', left). (ev @ ev', left)) later) } })"

text \<open>
  \<^verbatim>\<open>main\<close>, on \<^verbatim>\<open>sys.argv\<close> and the standard input. \<^verbatim>\<open>check_sox_installed\<close> ends the
  program with \<^verbatim>\<open>sys.exit(1)\<close>, after its advice, when it finds no SoX.
\<close>

definition main :: "backend \<Rightarrow> world \<Rightarrow> pystr list \<Rightarrow> pystr list \<Rightarrow> (event list \<times> pystr list) outcome" where
  "main backend w argv stdin =
     (case sox_found w of
        None \<Rightarrow> Some (Inl (SystemExit 1))
      | Some sox_command \<Rightarrow>
          if length argv < 3 then Some (Inr ([Print Usage], stdin))
          else
            (let grouping_pattern = argv ! 1 in
             if \<not> str_isdigit grouping_pattern then Some (Inr ([Print Digits_only], stdin))
             else process_files backend w sox_command grouping_pattern (drop 2 argv) stdin))"

section \<open>The notions of the specification\<close>

text \<open>The channel groups a run extracts, and the files it writes, in order.\<close>

fun remix_groups :: "event list \<Rightarrow> int list list" where
  "remix_groups [] = []"
| "remix_groups (Sox_remix input_file output_file remix_args # ev) = remix_args # remix_groups ev"
| "remix_groups (Print m # ev) = remix_groups ev"

fun output_files :: "event list \<Rightarrow> pystr list" where
  "output_files [] = []"
| "output_files (Sox_remix input_file output_file remix_args # ev) = output_file # output_files ev"
| "output_files (Print m # ev) = output_files ev"

definition group_sizes :: "event list \<Rightarrow> int list" where
  "group_sizes ev = map (\<lambda>g. int (length g)) (remix_groups ev)"

text \<open>The loop variables when a loop is entered for a file of \<open>n\<close> channels.\<close>

definition at_start :: "int \<Rightarrow> loop_vars" where
  "at_start n = \<lparr>channel_start = 1, remaining_channels = n, pattern_index = 0\<rparr>"

text \<open>
  A grouping pattern is a sequence of decimal digits; \<open>digit_of\<close> is the size a digit
  stands for. The partition algorithm is specified for the digits 1 to 9.
\<close>

definition is_decimal :: "codepoint \<Rightarrow> bool" where
  "is_decimal c \<longleftrightarrow> decimal_value c \<noteq> None"

definition digit_of :: "codepoint \<Rightarrow> int" where
  "digit_of c = (case decimal_value c of None \<Rightarrow> 0 | Some d \<Rightarrow> int d)"

definition digit_1_to_9 :: "codepoint \<Rightarrow> bool" where
  "digit_1_to_9 c \<longleftrightarrow> (case decimal_value c of None \<Rightarrow> False | Some d \<Rightarrow> 1 \<le> d \<and> d \<le> 9)"

text \<open>The two pre-checks as the specification words them.\<close>

definition spec_rejects :: "pystr \<Rightarrow> int \<Rightarrow> bool" where
  "spec_rejects P N \<longleftrightarrow>
     (length P = 1 \<and> digit_of (hd P) = N) \<or> sum_list (map digit_of P) > N"

text \<open>
  Consecutive ranges: \<open>chain s gs e\<close> holds when the groups \<open>gs\<close> are non-empty ranges,
  the first starting at \<open>s\<close>, each next one right after the one before, the last
  ending at \<open>e - 1\<close>.
\<close>

fun chain :: "int \<Rightarrow> int list list \<Rightarrow> int \<Rightarrow> bool" where
  "chain s [] e \<longleftrightarrow> s = e"
| "chain s (g # gs) e \<longleftrightarrow> g \<noteq> [] \<and> g = [s .. last g] \<and> chain (last g + 1) gs e"

text \<open>
  What one round of a loop reads and computes, named for the proofs: the digit at the
  pattern index (the last digit once the pattern is used up), the group size after the
  adjustment, the next loop variables, the label and the output file name.
\<close>

definition pattern_digit :: "pystr \<Rightarrow> nat \<Rightarrow> int" where
  "pattern_digit P i = digit_of (if i < length P then P ! i else last P)"

definition group_size_at :: "pystr \<Rightarrow> loop_vars \<Rightarrow> int" where
  "group_size_at P v =
     (if pattern_digit P (pattern_index v) > remaining_channels v then 1
      else pattern_digit P (pattern_index v))"

definition next_vars :: "pystr \<Rightarrow> loop_vars \<Rightarrow> loop_vars" where
  "next_vars P v =
     \<lparr>channel_start = channel_start v + group_size_at P v,
      remaining_channels = remaining_channels v - group_size_at P v,
      pattern_index = (if pattern_index v < length P then pattern_index v + 1 else pattern_index v)\<rparr>"

definition group_label :: "int \<Rightarrow> int \<Rightarrow> pystr" where
  "group_label s k = (if k = 1 then str_int s else str_int s @ ustr ''-'' @ str_int (s + k - 1))"

definition out_name :: "os \<Rightarrow> pystr \<Rightarrow> int \<Rightarrow> int \<Rightarrow> pystr" where
  "out_name platform input_file s k =
     fst (os_path_splitext platform input_file) @ ustr ''['' @ group_label s k @ ustr '']''
     @ snd (os_path_splitext platform input_file)"

text \<open>The events of a run that extracts groups of the sizes \<open>ks\<close> from channel \<open>s\<close> on.\<close>

fun events_of :: "os \<Rightarrow> pystr \<Rightarrow> int \<Rightarrow> int list \<Rightarrow> event list" where
  "events_of platform input_file s [] = []"
| "events_of platform input_file s (k # ks) =
     Sox_remix input_file (out_name platform input_file s k) [s .. s + k - 1]
     # Print (Saved (out_name platform input_file s k))
     # events_of platform input_file (s + k) ks"

text \<open>
  A world and a backend for the examples: a POSIX system with SoX, where every input
  file is there and has \<open>n\<close> channels, and where the paths \<open>there\<close> exist.
\<close>

definition example_world :: "int \<Rightarrow> pystr list \<Rightarrow> world" where
  "example_world n there =
     \<lparr>os_name = Posix, sox_found = Some (ustr ''sox''), isfile = (\<lambda>p. True),
      path_exists = (\<lambda>p. p \<in> set there), channel_count = (\<lambda>p. Some n)\<rparr>"

definition creates_output :: backend where
  "creates_output input_file output_file remix_args w =
     w\<lparr>path_exists := (\<lambda>p. p = output_file \<or> path_exists w p)\<rparr>"

text \<open>
  \<open>takes_sizes P v ks\<close>: from the loop variables \<open>v\<close> on, the rounds of a loop take
  groups of the sizes \<open>ks\<close>, and then no channel remains.
\<close>

fun takes_sizes :: "pystr \<Rightarrow> loop_vars \<Rightarrow> int list \<Rightarrow> bool" where
  "takes_sizes P v [] \<longleftrightarrow> remaining_channels v \<le> 0"
| "takes_sizes P v (k # ks) \<longleftrightarrow>
     0 < remaining_channels v \<and> k = group_size_at P v \<and> takes_sizes P (next_vars P v) ks"

text \<open>
  The group sizes the specification promises for a pattern whose digits sum to at most
  \<open>N\<close>: the digits of the pattern from left to right, then the last digit as often as
  it fits into what remains, then single channels.
\<close>

definition spec_sizes :: "pystr \<Rightarrow> int \<Rightarrow> int list" where
  "spec_sizes P N =
     (let rest = N - sum_list (map digit_of P); d = digit_of (last P)
      in map digit_of P @ replicate (nat (rest div d)) d @ replicate (nat (rest mod d)) 1)"

text \<open>
  The file name rule as the specification words it: the label of a group from \<open>s\<close> to
  \<open>e\<close>, the input path split at the rightmost dot of its file name, and the output
  path. The output is in the directory of the input, so the directory part of the path,
  up to the last path separator, stays in the base whatever dots it has.
\<close>

definition spec_label :: "int \<Rightarrow> int \<Rightarrow> pystr" where
  "spec_label s e = (if s = e then str_int s else str_int s @ ustr ''-'' @ str_int e)"

definition last_separator :: "os \<Rightarrow> pystr \<Rightarrow> int" where
  "last_separator platform p =
     (case platform of Posix \<Rightarrow> rfind p 47 | Nt \<Rightarrow> max (rfind p 92) (rfind p 47))"

definition spec_split_rightmost :: "os \<Rightarrow> pystr \<Rightarrow> pystr \<times> pystr" where
  "spec_split_rightmost platform p =
     (if rfind p 46 \<le> last_separator platform p then (p, [])
      else (take (nat (rfind p 46)) p, drop (nat (rfind p 46)) p))"

definition spec_output_path :: "os \<Rightarrow> pystr \<Rightarrow> int \<Rightarrow> int \<Rightarrow> pystr" where
  "spec_output_path platform p s e =
     fst (spec_split_rightmost platform p) @ ustr ''['' @ spec_label s e @ ustr '']''
     @ snd (spec_split_rightmost platform p)"

text \<open>
  The rule with the split the program makes: the rightmost dot of the file name starts
  the extension only when a character other than a dot comes before it in the file
  name; otherwise the extension is empty.
\<close>

definition has_extension :: "os \<Rightarrow> pystr \<Rightarrow> bool" where
  "has_extension platform p \<longleftrightarrow>
     last_separator platform p < rfind p 46 \<and>
     list_ex (\<lambda>c. c \<noteq> 46)
       (take (nat (rfind p 46) - nat (last_separator platform p + 1))
          (drop (nat (last_separator platform p + 1)) p))"

definition amended_split :: "os \<Rightarrow> pystr \<Rightarrow> pystr \<times> pystr" where
  "amended_split platform p =
     (if has_extension platform p then spec_split_rightmost platform p else (p, []))"

definition amended_output_path :: "os \<Rightarrow> pystr \<Rightarrow> int \<Rightarrow> int \<Rightarrow> pystr" where
  "amended_output_path platform p s e =
     fst (amended_split platform p) @ ustr ''['' @ spec_label s e @ ustr '']''
     @ snd (amended_split platform p)"

text \<open>The size a round reads from the pattern, with the next pattern index.\<close>

definition read_size :: "pystr \<Rightarrow> loop_vars \<Rightarrow> error + int \<times> nat" where
  "read_size P v =
     (if pattern_index v < length P
      then map_sum id (\<lambda>d. (d, pattern_index v + 1)) (int_char (P ! pattern_index v))
      else if P = [] then Inl IndexError
      else map_sum id (\<lambda>d. (d, pattern_index v)) (int_char (last P)))"

text \<open>The number a decimal numeral stands for.\<close>

definition decimal_number :: "pystr \<Rightarrow> nat" where
  "decimal_number s = foldl (\<lambda>a c. 10 * a + (c - 48)) 0 s"

text \<open>
  The syntax of the pattern argument as the specification words it: the regular
  expression \<^verbatim>\<open>^[0-9]+$\<close>, one or more ASCII digits and nothing else.
\<close>

definition spec_matches_digits :: "pystr \<Rightarrow> bool" where
  "spec_matches_digits s \<longleftrightarrow> s \<noteq> [] \<and> list_all (\<lambda>c. 48 \<le> c \<and> c \<le> 57) s"

text \<open>What \<open>split_channels\<close> prints up to the overwrite prompt.\<close>

definition prompt_events :: "pystr \<Rightarrow> int \<Rightarrow> pystr list \<Rightarrow> event list" where
  "prompt_events input_file n existing_files =
     [Print (Total_channels input_file n), Print (Existing_files existing_files),
      Print Overwrite_prompt]"

section \<open>Properties\<close>

subsection \<open>Digits and validation\<close>

lemma decimal_value_ascii: "48 \<le> c \<Longrightarrow> c \<le> 57 \<Longrightarrow> decimal_value c = Some (c - 48)"
  by (simp add: decimal_value_def decimal_zeros_def)

lemma decimal_value_le_9: "decimal_value c = Some d \<Longrightarrow> d \<le> 9"
  by (auto simp: decimal_value_def find_Some_iff)

lemma int_char_decimal: "is_decimal c \<Longrightarrow> int_char c = Inr (digit_of c)"
  by (auto simp: is_decimal_def int_char_def digit_of_def)

lemma digit_1_to_9_decimal: "digit_1_to_9 c \<Longrightarrow> is_decimal c"
  by (auto simp: digit_1_to_9_def is_decimal_def split: option.splits)

lemma digit_1_to_9_bounds: "digit_1_to_9 c \<Longrightarrow> 1 \<le> digit_of c \<and> digit_of c \<le> 9"
  by (auto simp: digit_1_to_9_def digit_of_def split: option.splits)

lemma all_1_to_9_decimal: "list_all digit_1_to_9 P \<Longrightarrow> list_all is_decimal P"
  by (auto simp: list_all_iff digit_1_to_9_decimal)

lemma sum_digits_decimal:
  "list_all is_decimal P \<Longrightarrow> sum_digits P = Inr (sum_list (map digit_of P))"
  by (induction P) (simp_all add: int_char_decimal)

lemma validate_decimal:
  assumes "list_all is_decimal P"
  shows "validate_grouping_pattern P N =
     Inr (if length P = 1 \<and> digit_of (hd P) = N then [Same_as_total P N]
          else if sum_list (map digit_of P) > N then [Sum_exceeds (sum_list (map digit_of P)) N]
          else [], \<not> spec_rejects P N)"
proof (cases "length P = 1")
  case True
  then obtain c where P: "P = [c]" by (cases P) auto
  with assms have "is_decimal c" by simp
  then show ?thesis
    by (simp add: P validate_grouping_pattern_def int_char_decimal spec_rejects_def)
next
  case False
  then show ?thesis using assms
    by (simp add: validate_grouping_pattern_def sum_digits_decimal spec_rejects_def)
qed

lemma output_files_append: "output_files (a @ b) = output_files a @ output_files b"
  by (induction a rule: output_files.induct) simp_all

lemma remix_groups_append: "remix_groups (a @ b) = remix_groups a @ remix_groups b"
  by (induction a rule: remix_groups.induct) simp_all

lemma remix_groups_map_Print: "remix_groups (map Print ms) = []"
  by (induction ms) simp_all

text \<open>
  C3. On a pattern of decimal digits and a channel count \<open>N\<close>,
  \<open>validate_grouping_pattern\<close> returns \<open>False\<close> exactly when the pattern is one digit
  equal to \<open>N\<close> or the sum of its digits exceeds \<open>N\<close>, and returns \<open>True\<close> otherwise;
  when it returns \<open>False\<close>, \<open>split_channels\<close> ends without a backend call, so no group
  is emitted.
\<close>

theorem validate_rejects_iff:
  assumes "list_all is_decimal P"
  shows "\<exists>printed. validate_grouping_pattern P N = Inr (printed, \<not> spec_rejects P N) \<and>
           (spec_rejects P N \<longrightarrow>
              (\<forall>w sox_command input_file stdin. channel_count w input_file = Some N \<longrightarrow>
                 (\<exists>ev. split_channels w sox_command input_file P stdin = Some (Inr (ev, stdin))
                        \<and> remix_groups ev = [])))"
proof -
  obtain printed where v: "validate_grouping_pattern P N = Inr (printed, \<not> spec_rejects P N)"
    using validate_decimal [OF assms] by blast
  have "split_channels w sox_command input_file P stdin =
          Some (Inr (Print (Total_channels input_file N) # map Print printed, stdin))"
    if "spec_rejects P N" "channel_count w input_file = Some N" for w sox_command input_file stdin
    using that v by (simp add: split_channels_def)
  then show ?thesis using v by (auto simp: remix_groups_map_Print)
qed

text \<open>
  The patterns \<^verbatim>\<open>4\<close> and \<^verbatim>\<open>9\<close> on four channels are rejected, the first as a no-op and
  the second for its sum; \<^verbatim>\<open>32\<close> on seven channels passes.
\<close>

theorem validate_rejects_iff_witness:
  "list_all is_decimal (ustr ''4'') \<and> spec_rejects (ustr ''4'') 4 \<and>
   validate_grouping_pattern (ustr ''4'') 4 = Inr ([Same_as_total (ustr ''4'') 4], False) \<and>
   list_all is_decimal (ustr ''9'') \<and> spec_rejects (ustr ''9'') 4 \<and>
   validate_grouping_pattern (ustr ''9'') 4 = Inr ([Sum_exceeds 9 4], False) \<and>
   list_all is_decimal (ustr ''32'') \<and> \<not> spec_rejects (ustr ''32'') 7 \<and>
   validate_grouping_pattern (ustr ''32'') 7 = Inr ([], True)"
proof -
  have d: "list_all is_decimal (ustr ''4'')" "list_all is_decimal (ustr ''9'')"
    "list_all is_decimal (ustr ''32'')"
    by (simp_all add: ustr_def is_decimal_def decimal_value_ascii)
  have r: "spec_rejects (ustr ''4'') 4" "spec_rejects (ustr ''9'') 4" "\<not> spec_rejects (ustr ''32'') 7"
    by (simp_all add: ustr_def spec_rejects_def digit_of_def decimal_value_ascii)
  show ?thesis
    using validate_rejects_iff [OF d(1), of 4] validate_rejects_iff [OF d(2), of 4]
      validate_rejects_iff [OF d(3), of 7] d r
    by (auto simp: validate_grouping_pattern_def ustr_def int_char_def decimal_value_ascii)
qed

subsection \<open>One round of the writing loop\<close>

lemma split_body_decimal:
  assumes "P \<noteq> []" "list_all is_decimal P"
  shows "split_channels_body w f P v =
     Inr (next_vars P v, events_of (os_name w) f (channel_start v) [group_size_at P v])"
proof (cases "pattern_index v < length P")
  case True
  with assms have "int_char (P ! pattern_index v) = Inr (digit_of (P ! pattern_index v))"
    by (simp add: int_char_decimal list_all_length)
  with True show ?thesis
    by (simp add: split_channels_body_def next_vars_def group_size_at_def pattern_digit_def
        out_name_def group_label_def Let_def split: prod.split)
next
  case False
  with assms have "int_char (last P) = Inr (digit_of (last P))"
    by (simp add: int_char_decimal list_all_iff)
  with False assms(1) show ?thesis
    by (simp add: split_channels_body_def next_vars_def group_size_at_def pattern_digit_def
        out_name_def group_label_def Let_def split: prod.split)
qed

lemma pattern_digit_1_to_9:
  "P \<noteq> [] \<Longrightarrow> list_all digit_1_to_9 P \<Longrightarrow> 1 \<le> pattern_digit P i \<and> pattern_digit P i \<le> 9"
  unfolding pattern_digit_def
  by (rule digit_1_to_9_bounds) (auto simp: list_all_iff)

lemma group_size_bounds:
  assumes "P \<noteq> []" "list_all digit_1_to_9 P" "0 < remaining_channels v"
  shows "1 \<le> group_size_at P v \<and> group_size_at P v \<le> remaining_channels v"
  using pattern_digit_1_to_9 [OF assms(1,2), of "pattern_index v"] assms(3)
  by (auto simp: group_size_at_def)

lemma split_while_done:
  "remaining_channels v \<le> 0 \<Longrightarrow> split_channels_while w f P v = Some (Inr [])"
  by (subst split_channels_while.simps) simp

lemma split_while_round:
  assumes "P \<noteq> []" "list_all is_decimal P" "0 < remaining_channels v"
    and "split_channels_while w f P (next_vars P v) = Some (Inr ev)"
  shows "split_channels_while w f P v =
           Some (Inr (events_of (os_name w) f (channel_start v) [group_size_at P v] @ ev))"
  using assms(3,4)
  by (subst split_channels_while.simps)
    (simp add: split_body_decimal [OF assms(1,2)] emit_def)

lemma events_of_append:
  "events_of pl f s (ks @ ks') = events_of pl f s ks @ events_of pl f (s + sum_list ks) ks'"
  by (induction ks arbitrary: s) (simp_all add: add.assoc)

text \<open>
  With digits 1 to 9 every round takes at least one channel and no more than remain, so
  the loop ends, and its events are those of a sequence of positive sizes that sum to
  the channels that remained.
\<close>

lemma split_while_returns:
  assumes "P \<noteq> []" "list_all digit_1_to_9 P" "0 \<le> remaining_channels v"
  shows "\<exists>ks. split_channels_while w f P v = Some (Inr (events_of (os_name w) f (channel_start v) ks))
              \<and> list_all (\<lambda>k. 1 \<le> k) ks \<and> sum_list ks = remaining_channels v"
  using assms(3)
proof (induction "nat (remaining_channels v)" arbitrary: v rule: less_induct)
  case less
  show ?case
  proof (cases "0 < remaining_channels v")
    case False
    with less.prems have "split_channels_while w f P v
        = Some (Inr (events_of (os_name w) f (channel_start v) []))"
      "sum_list [] = remaining_channels v"
      by (simp_all add: split_while_done)
    then show ?thesis by (intro exI [of _ "[]"]) simp
  next
    case True
    define k where "k = group_size_at P v"
    have k: "1 \<le> k" "k \<le> remaining_channels v"
      using group_size_bounds [OF assms(1,2) True] by (simp_all add: k_def)
    have rem: "remaining_channels (next_vars P v) = remaining_channels v - k"
      and st: "channel_start (next_vars P v) = channel_start v + k"
      by (simp_all add: next_vars_def k_def)
    have "nat (remaining_channels (next_vars P v)) < nat (remaining_channels v)"
      "0 \<le> remaining_channels (next_vars P v)"
      using k True by (simp_all add: rem)
    from less.hyps [OF this] obtain ks where
      ks: "split_channels_while w f P (next_vars P v)
             = Some (Inr (events_of (os_name w) f (channel_start v + k) ks))"
        "list_all (\<lambda>k. 1 \<le> k) ks" "sum_list ks = remaining_channels v - k"
      by (auto simp: rem st)
    have "split_channels_while w f P v
        = Some (Inr (events_of (os_name w) f (channel_start v) (k # ks)))"
      using split_while_round [OF assms(1) all_1_to_9_decimal [OF assms(2)] True ks(1)]
      by (simp add: k_def)
    moreover have "list_all (\<lambda>k. 1 \<le> k) (k # ks)" "sum_list (k # ks) = remaining_channels v"
      using ks(2,3) k(1) by simp_all
    ultimately show ?thesis by blast
  qed
qed

subsection \<open>The groups of a run\<close>

lemma chain_events_of:
  "list_all (\<lambda>k. 1 \<le> k) ks \<Longrightarrow> chain s (remix_groups (events_of pl f s ks)) (s + sum_list ks)"
proof (induction ks arbitrary: s)
  case Nil
  show ?case by simp
next
  case (Cons k ks)
  then have k: "1 \<le> k" and ks: "list_all (\<lambda>k. 1 \<le> k) ks" by simp_all
  have "[s .. s + k - 1] \<noteq> []" "last [s .. s + k - 1] = s + k - 1"
    using k by (simp_all add: upto_rec2)
  then show ?case using Cons.IH [OF ks, of "s + k"] by (simp add: add.assoc)
qed

lemma group_sizes_events_of:
  "list_all (\<lambda>k. 0 \<le> k) ks \<Longrightarrow> group_sizes (events_of pl f s ks) = ks"
  by (induction ks arbitrary: s) (simp_all add: group_sizes_def)

lemma chain_concat: "chain s gs e \<Longrightarrow> s \<le> e \<and> concat gs = [s .. e - 1]"
proof (induction gs arbitrary: s)
  case Nil
  then show ?case by simp
next
  case (Cons g gs)
  then have g: "g \<noteq> []" "g = [s .. last g]" and rest: "chain (last g + 1) gs e" by simp_all
  from g have sl: "s \<le> last g" by (metis upto_Nil2 linorder_not_le)
  from Cons.IH [OF rest] have le: "last g + 1 \<le> e" and c: "concat gs = [last g + 1 .. e - 1]"
    by simp_all
  have "[s .. e - 1] = [s .. last g] @ [last g + 1 .. e - 1]"
    using sl le by (intro upto_split2) simp_all
  with g c sl le show ?case by simp
qed

lemma chain_ranges: "chain s gs e \<Longrightarrow> g \<in> set gs \<Longrightarrow> g \<noteq> [] \<and> g = [hd g .. last g]"
proof (induction gs arbitrary: s)
  case Nil
  then show ?case by simp
next
  case (Cons a gs)
  from Cons.prems(1) have a: "a \<noteq> []" "a = [s .. last a]" by simp_all
  then have "hd a = s" by (metis upto_rec1 list.sel(1) upto_Nil2 linorder_not_le)
  with a Cons show ?case by auto
qed

lemma chain_hd: "chain s (g # gs) e \<Longrightarrow> hd g = s"
  by (metis chain.simps(2) upto_rec1 list.sel(1) upto_Nil2 linorder_not_le)

lemma chain_next:
  "chain s gs e \<Longrightarrow> Suc i < length gs \<Longrightarrow> hd (gs ! Suc i) = last (gs ! i) + 1"
proof (induction gs arbitrary: s i)
  case Nil
  then show ?case by simp
next
  case (Cons g gs)
  from Cons.prems(1) have rest: "chain (last g + 1) gs e" by simp
  show ?case
  proof (cases i)
    case 0
    with Cons.prems(2) obtain g' gs' where gs: "gs = g' # gs'" by (cases gs) auto
    with rest have "hd g' = last g + 1" by (simp only: chain_hd)
    with 0 gs show ?thesis by simp
  next
    case (Suc j)
    with Cons.prems(2) Cons.IH [OF rest, of j] show ?thesis by simp
  qed
qed

lemma chain_sizes: "chain s gs e \<Longrightarrow> (\<Sum>g\<leftarrow>gs. int (length g)) = e - s"
proof (induction gs arbitrary: s)
  case Nil
  then show ?case by simp
next
  case (Cons g gs)
  then have g: "g \<noteq> []" "g = [s .. last g]" and rest: "chain (last g + 1) gs e" by simp_all
  from g have sl: "s \<le> last g" by (metis upto_Nil2 linorder_not_le)
  have "int (length g) = last g - s + 1"
    using sl by (subst g(2)) simp
  with Cons.IH [OF rest] show ?case by simp
qed

lemma length_le_sum_list: "list_all (\<lambda>k. 1 \<le> k) ks \<Longrightarrow> int (length ks) \<le> sum_list ks"
  by (induction ks) auto

lemma length_remix_groups_events_of: "length (remix_groups (events_of pl f s ks)) = length ks"
  by (induction ks arbitrary: s) simp_all

subsection \<open>Runs with given sizes\<close>

lemma split_while_takes_sizes:
  assumes "P \<noteq> []" "list_all is_decimal P"
  shows "takes_sizes P v ks \<Longrightarrow>
    split_channels_while w f P v = Some (Inr (events_of (os_name w) f (channel_start v) ks))"
proof (induction ks arbitrary: v)
  case Nil
  then show ?case by (simp add: split_while_done)
next
  case (Cons k ks)
  then have pos: "0 < remaining_channels v" and k: "k = group_size_at P v"
    and rest: "takes_sizes P (next_vars P v) ks"
    by simp_all
  have "channel_start (next_vars P v) = channel_start v + k"
    by (simp add: next_vars_def k)
  with Cons.IH [OF rest] split_while_round [OF assms pos, of w f] show ?case
    by (simp add: k)
qed

lemma ascii_digits_decimal: "list_all (\<lambda>c. 48 \<le> c \<and> c \<le> 57) s \<Longrightarrow> list_all is_decimal s"
  by (auto simp: list_all_iff is_decimal_def decimal_value_ascii)

lemma pattern_32_valid:
  "ustr ''32'' \<noteq> []" "list_all digit_1_to_9 (ustr ''32'')"
  "validate_grouping_pattern (ustr ''32'') 7 = Inr ([], True)"
  by (simp_all add: ustr_def digit_1_to_9_def decimal_value_ascii validate_grouping_pattern_def
      int_char_def)

lemma run_32_on_7:
  "split_channels_while (example_world 7 there) (ustr ''track.wav'') (ustr ''32'') (at_start 7)
     = Some (Inr (events_of Posix (ustr ''track.wav'') 1 [3, 2, 2]))"
proof -
  have "takes_sizes (ustr ''32'') (at_start 7) [3, 2, 2]"
    by (simp add: at_start_def group_size_at_def pattern_digit_def digit_of_def ustr_def
        decimal_value_ascii next_vars_def)
  from split_while_takes_sizes [OF pattern_32_valid(1) all_1_to_9_decimal [OF pattern_32_valid(2)] this]
  show ?thesis by (simp add: example_world_def at_start_def)
qed

lemma names_32_on_7:
  "events_of Posix (ustr ''track.wav'') 1 [3, 2, 2] =
     [Sox_remix (ustr ''track.wav'') (ustr ''track[1-3].wav'') [1, 2, 3],
      Print (Saved (ustr ''track[1-3].wav'')),
      Sox_remix (ustr ''track.wav'') (ustr ''track[4-5].wav'') [4, 5],
      Print (Saved (ustr ''track[4-5].wav'')),
      Sox_remix (ustr ''track.wav'') (ustr ''track[6-7].wav'') [6, 7],
      Print (Saved (ustr ''track[6-7].wav''))]"
  by code_simp

subsection \<open>The loop of the check against the writing loop\<close>

lemma check_body_split_body:
  "check_files_exist_body w f P v existing =
     (case split_channels_body w f P v of
        Inl e \<Rightarrow> Inl e
      | Inr (v', ev) \<Rightarrow> Inr (v', existing @ filter (path_exists w) (output_files ev)))"
  by (simp add: check_files_exist_body_def split_channels_body_def Let_def
      split: sum.split prod.split)

lemma split_returns_check_returns:
  assumes "split_channels_while w f P v = Some r"
  shows "\<forall>existing. check_files_exist_while w f P v existing
        = Some (map_sum id (\<lambda>ev. existing @ filter (path_exists w) (output_files ev)) r)"
  using assms
proof (induct rule: split_channels_while.raw_induct [rotated 1, consumes 1, case_names round])
  case (round loop w f P v r)
  show ?case
  proof (cases "0 < remaining_channels v")
    case False
    with round(2) show ?thesis
      by (subst check_files_exist_while.simps) auto
  next
    case True
    show ?thesis
    proof (cases "split_channels_body w f P v")
      case (Inl e)
      with True round(2) show ?thesis
        by (subst check_files_exist_while.simps) (auto simp: check_body_split_body)
    next
      case (Inr step)
      obtain v' ev where step: "step = (v', ev)" by (cases step)
      from round(2) True Inr step obtain later where
        later: "loop w f P v' = Some later" and r: "r = emit ev later"
        by (auto simp: bind_eq_Some_conv)
      show ?thesis
      proof
        fix existing
        from round(1) [OF later]
        have "check_files_exist_while w f P v' (existing @ filter (path_exists w) (output_files ev))
          = Some (map_sum id (\<lambda>ev'. (existing @ filter (path_exists w) (output_files ev))
                @ filter (path_exists w) (output_files ev')) later)"
          by blast
        moreover have "map_sum id (\<lambda>ev'. (existing @ filter (path_exists w) (output_files ev))
                @ filter (path_exists w) (output_files ev')) later
           = map_sum id (\<lambda>ev. existing @ filter (path_exists w) (output_files ev)) r"
          by (cases later) (simp_all add: r emit_def output_files_append)
        ultimately show "check_files_exist_while w f P v existing
            = Some (map_sum id (\<lambda>ev. existing @ filter (path_exists w) (output_files ev)) r)"
          using True Inr step
          by (subst check_files_exist_while.simps) (simp add: check_body_split_body)
      qed
    qed
  qed
qed

lemma check_returns_split_returns:
  assumes "check_files_exist_while w f P v existing = Some z"
  shows "\<exists>r. split_channels_while w f P v = Some r"
  using assms
proof (induct rule: check_files_exist_while.raw_induct [rotated 1, consumes 1, case_names round])
  case (round loop w f P v existing z)
  show ?case
  proof (cases "0 < remaining_channels v")
    case False
    then show ?thesis by (subst split_channels_while.simps) simp
  next
    case True
    show ?thesis
    proof (cases "split_channels_body w f P v")
      case (Inl e)
      with True show ?thesis by (subst split_channels_while.simps) simp
    next
      case (Inr step)
      obtain v' ev where step: "step = (v', ev)" by (cases step)
      from round(2) True Inr step
      have "loop w f P v' (existing @ filter (path_exists w) (output_files ev)) = Some z"
        by (simp add: check_body_split_body)
      from round(1) [OF this] obtain r' where "split_channels_while w f P v' = Some r'" by blast
      with True Inr step show ?thesis by (subst split_channels_while.simps) simp
    qed
  qed
qed

lemma check_while_eq:
  "check_files_exist_while w f P v existing =
     map_option (map_sum id (\<lambda>ev. existing @ filter (path_exists w) (output_files ev)))
       (split_channels_while w f P v)"
proof (cases "split_channels_while w f P v")
  case None
  then have "check_files_exist_while w f P v existing = None"
    using check_returns_split_returns [of w f P v existing] by (cases "check_files_exist_while w f P v existing") auto
  with None show ?thesis by simp
next
  case (Some r)
  with split_returns_check_returns [OF Some] show ?thesis by simp
qed

subsection \<open>The partition\<close>

text \<open>
  C1. For a channel count \<open>N \<ge> 1\<close> and a non-empty pattern of digits 1 to 9 that passes
  validation, the writing loop returns, and the groups it has extracted partition
  \<open>[1 .. N]\<close>: each is a non-empty range, the first starts at 1, each next one starts
  right after the end of the one before, the sizes sum to \<open>N\<close>, and the groups
  one after the other are the list \<open>[1 .. N]\<close> itself, so they are disjoint and in
  ascending order.
\<close>

theorem partition_exact:
  assumes "1 \<le> N" "P \<noteq> []" "list_all digit_1_to_9 P"
    and "validate_grouping_pattern P N = Inr (printed, True)"
  shows "\<exists>ev. split_channels_while w f P (at_start N) = Some (Inr ev) \<and>
     remix_groups ev \<noteq> [] \<and> hd (hd (remix_groups ev)) = 1 \<and>
     (\<forall>g \<in> set (remix_groups ev). g \<noteq> [] \<and> g = [hd g .. last g]) \<and>
     (\<forall>i. Suc i < length (remix_groups ev) \<longrightarrow>
          hd (remix_groups ev ! Suc i) = last (remix_groups ev ! i) + 1) \<and>
     sum_list (group_sizes ev) = N \<and> concat (remix_groups ev) = [1 .. N]"
proof -
  have "0 \<le> remaining_channels (at_start N)" using assms(1) by (simp add: at_start_def)
  from split_while_returns [OF assms(2,3) this, of w f] obtain ks where
    run: "split_channels_while w f P (at_start N) = Some (Inr (events_of (os_name w) f 1 ks))"
    and ks: "list_all (\<lambda>k. 1 \<le> k) ks" "sum_list ks = N"
    by (auto simp: at_start_def)
  define gs where "gs = remix_groups (events_of (os_name w) f 1 ks)"
  have c: "chain 1 gs (1 + N)"
    using chain_events_of [OF ks(1), of 1 "os_name w" f] by (simp add: gs_def ks(2))
  from chain_concat [OF c] have cc: "concat gs = [1 .. N]" by simp
  with assms(1) have ne: "gs \<noteq> []" by (auto simp: upto_rec1)
  then obtain g gs' where g: "gs = g # gs'" by (cases gs) auto
  with c have h: "hd (hd gs) = 1" by (simp only: chain_hd list.sel)
  have sizes: "sum_list (group_sizes (events_of (os_name w) f 1 ks)) = N"
    using chain_sizes [OF c] by (simp add: group_sizes_def gs_def)
  show ?thesis
    using run ne h cc sizes chain_ranges [OF c] chain_next [OF c]
    unfolding gs_def by blast
qed

text \<open>The pattern \<^verbatim>\<open>32\<close> on seven channels: the groups 1-3, 4-5 and 6-7.\<close>

theorem partition_exact_witness:
  "(1::int) \<le> 7 \<and> ustr ''32'' \<noteq> [] \<and> list_all digit_1_to_9 (ustr ''32'') \<and>
   validate_grouping_pattern (ustr ''32'') 7 = Inr ([], True) \<and>
   (\<exists>ev. split_channels_while (example_world 7 []) (ustr ''track.wav'') (ustr ''32'') (at_start 7)
            = Some (Inr ev) \<and>
         remix_groups ev = [[1, 2, 3], [4, 5], [6, 7]] \<and>
         sum_list (group_sizes ev) = 7 \<and> concat (remix_groups ev) = [1 .. 7])"
proof -
  from partition_exact [OF _ pattern_32_valid, of "example_world 7 []" "ustr ''track.wav''"]
  obtain ev where
    ev: "split_channels_while (example_world 7 []) (ustr ''track.wav'') (ustr ''32'') (at_start 7)
            = Some (Inr ev)"
      "sum_list (group_sizes ev) = 7" "concat (remix_groups ev) = [1 .. 7]"
    by auto
  from ev(1) have "ev = events_of Posix (ustr ''track.wav'') 1 [3, 2, 2]"
    by (simp only: run_32_on_7 option.inject sum.inject)
  then have "remix_groups ev = [[1, 2, 3], [4, 5], [6, 7]]"
    by (simp only: names_32_on_7 remix_groups.simps)
  moreover have "(1::int) \<le> 7" by simp
  ultimately show ?thesis using ev pattern_32_valid by (intro conjI exI [of _ ev]) assumption+
qed

subsection \<open>Termination\<close>

text \<open>
  C4. For a channel count \<open>N \<ge> 1\<close> and a non-empty pattern of digits 1 to 9 that passes
  validation, the writing loop and the loop of \<^verbatim>\<open>check_files_exist\<close> both return; the
  writing loop extracts at most \<open>N\<close> groups; and every round of either loop that
  starts with channels remaining lowers \<^verbatim>\<open>remaining_channels\<close> by at least one and
  never below zero.
\<close>

theorem loops_terminate:
  assumes "1 \<le> N" "P \<noteq> []" "list_all digit_1_to_9 P"
    and "validate_grouping_pattern P N = Inr (printed, True)"
  shows "(\<exists>ev. split_channels_while w f P (at_start N) = Some (Inr ev) \<and>
              int (length (remix_groups ev)) \<le> N) \<and>
         (\<exists>existing. check_files_exist_while w f P (at_start N) [] = Some (Inr existing)) \<and>
         (\<forall>v. 0 < remaining_channels v \<longrightarrow>
            (\<exists>v' ev. split_channels_body w f P v = Inr (v', ev) \<and>
               remaining_channels v' \<le> remaining_channels v - 1 \<and> 0 \<le> remaining_channels v')) \<and>
         (\<forall>v existing. 0 < remaining_channels v \<longrightarrow>
            (\<exists>v' existing'. check_files_exist_body w f P v existing = Inr (v', existing') \<and>
               remaining_channels v' \<le> remaining_channels v - 1 \<and> 0 \<le> remaining_channels v'))"
proof -
  have "0 \<le> remaining_channels (at_start N)" using assms(1) by (simp add: at_start_def)
  from split_while_returns [OF assms(2,3) this, of w f] obtain ks where
    run: "split_channels_while w f P (at_start N) = Some (Inr (events_of (os_name w) f 1 ks))"
    and ks: "list_all (\<lambda>k. 1 \<le> k) ks" "sum_list ks = N"
    by (auto simp: at_start_def)
  have finite: "int (length (remix_groups (events_of (os_name w) f 1 ks))) \<le> N"
    using length_le_sum_list [OF ks(1)] by (simp add: length_remix_groups_events_of ks(2))
  have chk: "\<exists>existing. check_files_exist_while w f P (at_start N) [] = Some (Inr existing)"
    by (simp add: check_while_eq run)
  have body: "split_channels_body w f P v
      = Inr (next_vars P v, events_of (os_name w) f (channel_start v) [group_size_at P v])" for v
    by (rule split_body_decimal [OF assms(2) all_1_to_9_decimal [OF assms(3)]])
  have dec: "remaining_channels (next_vars P v) \<le> remaining_channels v - 1 \<and>
      0 \<le> remaining_channels (next_vars P v)" if "0 < remaining_channels v" for v
    using group_size_bounds [OF assms(2,3) that] by (simp add: next_vars_def)
  have s: "\<exists>v' ev. split_channels_body w f P v = Inr (v', ev) \<and>
               remaining_channels v' \<le> remaining_channels v - 1 \<and> 0 \<le> remaining_channels v'"
    if "0 < remaining_channels v" for v
    using dec [OF that] body [of v] by blast
  have c: "\<exists>v' existing'. check_files_exist_body w f P v existing = Inr (v', existing') \<and>
               remaining_channels v' \<le> remaining_channels v - 1 \<and> 0 \<le> remaining_channels v'"
    if "0 < remaining_channels v" for v existing
    using dec [OF that] by (simp add: check_body_split_body body)
  from run finite chk s c show ?thesis by blast
qed

text \<open>The pattern \<^verbatim>\<open>32\<close> on seven channels.\<close>

theorem loops_terminate_witness:
  "(1::int) \<le> 7 \<and> ustr ''32'' \<noteq> [] \<and> list_all digit_1_to_9 (ustr ''32'') \<and>
   validate_grouping_pattern (ustr ''32'') 7 = Inr ([], True) \<and>
   (\<exists>ev. split_channels_while (example_world 7 []) (ustr ''track.wav'') (ustr ''32'') (at_start 7)
            = Some (Inr ev) \<and> int (length (remix_groups ev)) \<le> 7) \<and>
   (\<exists>existing. check_files_exist_while (example_world 7 []) (ustr ''track.wav'') (ustr ''32'')
            (at_start 7) [] = Some (Inr existing))"
proof -
  have "(1::int) \<le> 7" by simp
  from this loops_terminate [OF this pattern_32_valid, of "example_world 7 []" "ustr ''track.wav''"]
    pattern_32_valid show ?thesis by blast
qed

subsection \<open>The check before writing\<close>

text \<open>
  C7. For the same input file, pattern and channel count, \<^verbatim>\<open>check_files_exist\<close>
  returns the output paths of the writing loop that exist, in the order in which the
  writing loop writes them; it raises what the writing loop raises and does not return
  where the writing loop does not. So a file is listed for the overwrite prompt exactly
  when it is one of the paths the split would write and it exists.
\<close>

theorem preflight_same_paths:
  "check_files_exist w f P =
     (case channel_count w f of
        None \<Rightarrow> Some (Inl ValueError)
      | Some n \<Rightarrow>
          map_option (map_sum id (\<lambda>ev. filter (path_exists w) (output_files ev)))
            (split_channels_while w f P (at_start n)))"
  by (simp add: check_files_exist_def check_while_eq at_start_def split: option.split)

text \<open>
  The pattern \<^verbatim>\<open>32\<close> on the seven channels of \<^verbatim>\<open>track.wav\<close>, where
  \<^verbatim>\<open>track[4-5].wav\<close> and \<^verbatim>\<open>other.wav\<close> exist.
\<close>

theorem preflight_same_paths_witness:
  "check_files_exist (example_world 7 [ustr ''track[4-5].wav'', ustr ''other.wav''])
      (ustr ''track.wav'') (ustr ''32'') = Some (Inr [ustr ''track[4-5].wav''])"
proof -
  define there where "there = [ustr ''track[4-5].wav'', ustr ''other.wav'']"
  have cc: "channel_count (example_world 7 there) (ustr ''track.wav'') = Some 7"
    and pe: "path_exists (example_world 7 there) = (\<lambda>p. p \<in> set there)"
    by (simp_all add: example_world_def)
  have "check_files_exist (example_world 7 there) (ustr ''track.wav'') (ustr ''32'')
      = Some (Inr (filter (\<lambda>p. p \<in> set there)
           (output_files (events_of Posix (ustr ''track.wav'') 1 [3, 2, 2]))))"
    by (simp add: preflight_same_paths cc run_32_on_7 pe)
  also have "filter (\<lambda>p. p \<in> set there)
           (output_files (events_of Posix (ustr ''track.wav'') 1 [3, 2, 2]))
      = [ustr ''track[4-5].wav'']"
    unfolding names_32_on_7 by (simp add: there_def ustr_def)
  finally show ?thesis by (simp add: there_def)
qed

subsection \<open>The sizes of the groups\<close>

lemma tail_takes_sizes:
  assumes "P \<noteq> []" "list_all digit_1_to_9 P"
  shows "length P \<le> pattern_index v \<Longrightarrow> 0 \<le> remaining_channels v \<Longrightarrow>
     takes_sizes P v (replicate (nat (remaining_channels v div digit_of (last P))) (digit_of (last P))
                      @ replicate (nat (remaining_channels v mod digit_of (last P))) 1)"
proof (induction "nat (remaining_channels v)" arbitrary: v rule: less_induct)
  case less
  define d where "d = digit_of (last P)"
  define r where "r = remaining_channels v"
  have d: "1 \<le> d" using pattern_digit_1_to_9 [OF assms, of "length P"]
    by (simp add: d_def pattern_digit_def)
  have pd: "pattern_digit P (pattern_index v) = d"
    using less.prems(1) by (simp add: pattern_digit_def d_def)
  have idx: "pattern_index (next_vars P v) = pattern_index v"
    using less.prems(1) by (simp add: next_vars_def)
  have ih: "takes_sizes P (next_vars P v)
          (replicate (nat ((r - k) div d)) d @ replicate (nat ((r - k) mod d)) 1)"
    if "group_size_at P v = k" "1 \<le> k" "k \<le> r" for k
  proof -
    have rem: "remaining_channels (next_vars P v) = r - k"
      by (simp add: next_vars_def that(1) r_def)
    have "nat (remaining_channels (next_vars P v)) < nat (remaining_channels v)"
      using that(2,3) by (simp add: rem r_def)
    moreover have "length P \<le> pattern_index (next_vars P v)"
      "0 \<le> remaining_channels (next_vars P v)"
      using less.prems(1) that(3) by (simp_all add: idx rem)
    ultimately show ?thesis
      using less.hyps [of "next_vars P v"] by (simp add: rem d_def)
  qed
  show ?case
  proof (cases "0 < r")
    case False
    with less.prems(2) have "r = 0" by (simp add: r_def)
    then show ?thesis by (simp add: r_def)
  next
    case pos: True
    show ?thesis
    proof (cases "d \<le> r")
      case True
      then have k: "group_size_at P v = d" by (simp add: group_size_at_def pd r_def)
      have "r div d = (r - d) div d + 1" "r mod d = (r - d) mod d"
        using d True by (simp_all add: div_pos_geq)
      moreover have "0 \<le> (r - d) div d" using d True by (simp add: pos_imp_zdiv_nonneg_iff)
      ultimately have "replicate (nat (r div d)) d @ replicate (nat (r mod d)) 1
          = d # replicate (nat ((r - d) div d)) d @ replicate (nat ((r - d) mod d)) 1"
        by (simp add: nat_add_distrib)
      with ih [OF k d True] pos k show ?thesis
        by (simp add: r_def [symmetric] d_def [symmetric])
    next
      case False
      then have k: "group_size_at P v = 1" by (simp add: group_size_at_def pd r_def)
      have "r div d = 0" "r mod d = r" "(r - 1) div d = 0" "(r - 1) mod d = r - 1"
        using False pos by simp_all
      moreover have "replicate (nat r) (1::int) = 1 # replicate (nat (r - 1)) 1"
        using pos by (cases "nat r") (simp_all add: nat_diff_distrib)
      ultimately show ?thesis using ih [of 1] k pos
        by (simp add: r_def [symmetric] d_def [symmetric])
    qed
  qed
qed

lemma head_takes_sizes:
  assumes "P \<noteq> []" "list_all digit_1_to_9 P"
  shows "pattern_index v \<le> length P \<Longrightarrow>
     sum_list (map digit_of (drop (pattern_index v) P)) \<le> remaining_channels v \<Longrightarrow>
     takes_sizes P v
       (map digit_of (drop (pattern_index v) P)
        @ replicate (nat ((remaining_channels v - sum_list (map digit_of (drop (pattern_index v) P)))
                          div digit_of (last P))) (digit_of (last P))
        @ replicate (nat ((remaining_channels v - sum_list (map digit_of (drop (pattern_index v) P)))
                          mod digit_of (last P))) 1)"
proof (induction "length P - pattern_index v" arbitrary: v)
  case 0
  then have "drop (pattern_index v) P = []" by simp
  with 0 tail_takes_sizes [OF assms, of v] show ?case by simp
next
  case (Suc n)
  define i where "i = pattern_index v"
  from Suc.hyps(2) have lt: "i < length P" by (simp add: i_def)
  then have dr: "drop i P = P ! i # drop (Suc i) P" by (simp add: Cons_nth_drop_Suc)
  have pd: "pattern_digit P i = digit_of (P ! i)" using lt by (simp add: pattern_digit_def)
  have d1: "1 \<le> digit_of (P ! i)" using pattern_digit_1_to_9 [OF assms, of i] by (simp add: pd)
  have nonneg: "0 \<le> sum_list (map digit_of (drop (Suc i) P))"
    using assms(2) by (intro sum_list_nonneg) (auto simp: list_all_iff dest!: in_set_dropD digit_1_to_9_bounds)
  from Suc.prems(2) have le: "digit_of (P ! i) + sum_list (map digit_of (drop (Suc i) P))
      \<le> remaining_channels v"
    by (simp add: i_def [symmetric] dr)
  with nonneg d1 have pos: "0 < remaining_channels v" and fit: "digit_of (P ! i) \<le> remaining_channels v"
    by simp_all
  have k: "group_size_at P v = digit_of (P ! i)"
    using fit by (simp add: group_size_at_def pd i_def [symmetric])
  have nv: "pattern_index (next_vars P v) = Suc i"
    "remaining_channels (next_vars P v) = remaining_channels v - digit_of (P ! i)"
    using lt by (simp_all add: next_vars_def k i_def [symmetric])
  have "n = length P - pattern_index (next_vars P v)" using Suc.hyps(2) by (simp add: nv i_def)
  moreover have "pattern_index (next_vars P v) \<le> length P" using lt by (simp add: nv)
  moreover have "sum_list (map digit_of (drop (pattern_index (next_vars P v)) P))
      \<le> remaining_channels (next_vars P v)"
    using le by (simp add: nv)
  ultimately have "takes_sizes P (next_vars P v)
       (map digit_of (drop (pattern_index (next_vars P v)) P)
        @ replicate (nat ((remaining_channels (next_vars P v)
             - sum_list (map digit_of (drop (pattern_index (next_vars P v)) P)))
                          div digit_of (last P))) (digit_of (last P))
        @ replicate (nat ((remaining_channels (next_vars P v)
             - sum_list (map digit_of (drop (pattern_index (next_vars P v)) P)))
                          mod digit_of (last P))) 1)"
    by (rule Suc.hyps(1))
  then show ?case using pos k
    by (simp add: nv i_def [symmetric] dr diff_diff_eq)
qed

lemma takes_spec_sizes:
  assumes "P \<noteq> []" "list_all digit_1_to_9 P" "sum_list (map digit_of P) \<le> N"
  shows "takes_sizes P (at_start N) (spec_sizes P N)"
  using head_takes_sizes [OF assms(1,2), of "at_start N"] assms(3)
  by (simp add: at_start_def spec_sizes_def Let_def)

lemma spec_sizes_nonneg:
  assumes "P \<noteq> []" "list_all digit_1_to_9 P"
  shows "list_all (\<lambda>k. 0 \<le> k) (spec_sizes P N)"
proof -
  have "0 \<le> digit_of c" if "c \<in> set P" for c
    using assms(2) that digit_1_to_9_bounds [of c] by (auto simp: list_all_iff)
  moreover have "last P \<in> set P" using assms(1) by simp
  ultimately show ?thesis
    by (auto simp: spec_sizes_def Let_def list_all_iff)
qed

lemma pattern_3_valid:
  "ustr ''3'' \<noteq> []" "list_all digit_1_to_9 (ustr ''3'')"
  "validate_grouping_pattern (ustr ''3'') 4 = Inr ([], True)"
  by (simp_all add: ustr_def digit_1_to_9_def decimal_value_ascii validate_grouping_pattern_def
      int_char_def)

lemma names_3_on_4:
  "events_of Posix (ustr ''track.wav'') 1 [3, 1] =
     [Sox_remix (ustr ''track.wav'') (ustr ''track[1-3].wav'') [1, 2, 3],
      Print (Saved (ustr ''track[1-3].wav'')),
      Sox_remix (ustr ''track.wav'') (ustr ''track[4].wav'') [4],
      Print (Saved (ustr ''track[4].wav''))]"
  by code_simp

lemma sums_32_3:
  "sum_list (map digit_of (ustr ''32'')) = 5" "sum_list (map digit_of (ustr ''3'')) = 3"
  "spec_sizes (ustr ''32'') 7 = [3, 2, 2]" "spec_sizes (ustr ''3'') 4 = [3, 1]"
  by (simp_all add: spec_sizes_def ustr_def digit_of_def decimal_value_ascii)

text \<open>
  C2. For a non-empty pattern of digits 1 to 9 whose sum is at most \<open>N\<close> and that passes
  validation, the writing loop returns; the sizes of its first \<open>length P\<close> groups are
  the digits of the pattern in order, none adjusted; the sizes after them are the last
  digit, as often as it fits into the channels left, followed by single channels, fewer
  of them than the last digit: a size is adjusted to 1 only in that final remainder.
\<close>

theorem sizes_follow_pattern:
  assumes "P \<noteq> []" "list_all digit_1_to_9 P" "sum_list (map digit_of P) \<le> N"
    and "validate_grouping_pattern P N = Inr (printed, True)"
  shows "\<exists>ev. split_channels_while w f P (at_start N) = Some (Inr ev) \<and>
     take (length P) (group_sizes ev) = map digit_of P \<and>
     drop (length P) (group_sizes ev)
       = replicate (nat ((N - sum_list (map digit_of P)) div digit_of (last P))) (digit_of (last P))
         @ replicate (nat ((N - sum_list (map digit_of P)) mod digit_of (last P))) 1 \<and>
     (N - sum_list (map digit_of P)) mod digit_of (last P) < digit_of (last P) \<and>
     group_sizes ev = spec_sizes P N"
proof -
  have dec: "list_all is_decimal P" by (rule all_1_to_9_decimal [OF assms(2)])
  have run: "split_channels_while w f P (at_start N)
      = Some (Inr (events_of (os_name w) f 1 (spec_sizes P N)))"
    using split_while_takes_sizes [OF assms(1) dec takes_spec_sizes [OF assms(1-3)], of w f]
    by (simp add: at_start_def)
  have sizes: "group_sizes (events_of (os_name w) f 1 (spec_sizes P N)) = spec_sizes P N"
    by (rule group_sizes_events_of [OF spec_sizes_nonneg [OF assms(1,2)]])
  have "1 \<le> digit_of (last P)"
    using pattern_digit_1_to_9 [OF assms(1,2), of "length P"] by (simp add: pattern_digit_def)
  then have "(N - sum_list (map digit_of P)) mod digit_of (last P) < digit_of (last P)"
    by simp
  with run sizes show ?thesis
    by (simp add: spec_sizes_def Let_def)
qed

text \<open>
  The pattern \<^verbatim>\<open>32\<close> on seven channels gives the groups 1-3, 4-5 and 6-7; the pattern
  \<^verbatim>\<open>3\<close> on four channels gives 1-3 and 4.
\<close>

theorem sizes_follow_pattern_witness:
  "ustr ''32'' \<noteq> [] \<and> list_all digit_1_to_9 (ustr ''32'') \<and>
   sum_list (map digit_of (ustr ''32'')) \<le> 7 \<and>
   validate_grouping_pattern (ustr ''32'') 7 = Inr ([], True) \<and>
   (\<exists>ev. split_channels_while (example_world 7 []) (ustr ''track.wav'') (ustr ''32'') (at_start 7)
            = Some (Inr ev) \<and>
         group_sizes ev = [3, 2, 2] \<and> remix_groups ev = [[1, 2, 3], [4, 5], [6, 7]] \<and>
         output_files ev = [ustr ''track[1-3].wav'', ustr ''track[4-5].wav'', ustr ''track[6-7].wav'']) \<and>
   ustr ''3'' \<noteq> [] \<and> list_all digit_1_to_9 (ustr ''3'') \<and>
   sum_list (map digit_of (ustr ''3'')) \<le> 4 \<and>
   validate_grouping_pattern (ustr ''3'') 4 = Inr ([], True) \<and>
   (\<exists>ev. split_channels_while (example_world 4 []) (ustr ''track.wav'') (ustr ''3'') (at_start 4)
            = Some (Inr ev) \<and>
         group_sizes ev = [3, 1] \<and> remix_groups ev = [[1, 2, 3], [4]] \<and>
         output_files ev = [ustr ''track[1-3].wav'', ustr ''track[4].wav''])"
proof -
  have le: "sum_list (map digit_of (ustr ''32'')) \<le> 7" "sum_list (map digit_of (ustr ''3'')) \<le> 4"
    by (simp_all add: sums_32_3)
  from sizes_follow_pattern [OF pattern_32_valid(1,2) le(1) pattern_32_valid(3),
      of "example_world 7 []" "ustr ''track.wav''"]
  obtain ev where ev:
    "split_channels_while (example_world 7 []) (ustr ''track.wav'') (ustr ''32'') (at_start 7)
       = Some (Inr ev)" "group_sizes ev = [3, 2, 2]"
    by (auto simp: sums_32_3)
  have "split_channels_while (example_world 7 []) (ustr ''track.wav'') (ustr ''32'') (at_start 7)
       = Some (Inr (events_of Posix (ustr ''track.wav'') 1 [3, 2, 2]))"
    using split_while_takes_sizes [OF pattern_32_valid(1) all_1_to_9_decimal [OF pattern_32_valid(2)]
        takes_spec_sizes [OF pattern_32_valid(1,2) le(1)], of "example_world 7 []" "ustr ''track.wav''"]
    by (simp add: sums_32_3 example_world_def at_start_def)
  with ev(1) have "ev = events_of Posix (ustr ''track.wav'') 1 [3, 2, 2]" by simp
  then have g: "remix_groups ev = [[1, 2, 3], [4, 5], [6, 7]]"
    "output_files ev = [ustr ''track[1-3].wav'', ustr ''track[4-5].wav'', ustr ''track[6-7].wav'']"
    by (simp_all only: names_32_on_7 remix_groups.simps output_files.simps)
  from sizes_follow_pattern [OF pattern_3_valid(1,2) le(2) pattern_3_valid(3),
      of "example_world 4 []" "ustr ''track.wav''"]
  obtain ev' where ev':
    "split_channels_while (example_world 4 []) (ustr ''track.wav'') (ustr ''3'') (at_start 4)
       = Some (Inr ev')" "group_sizes ev' = [3, 1]"
    by (auto simp: sums_32_3)
  have "split_channels_while (example_world 4 []) (ustr ''track.wav'') (ustr ''3'') (at_start 4)
       = Some (Inr (events_of Posix (ustr ''track.wav'') 1 [3, 1]))"
    using split_while_takes_sizes [OF pattern_3_valid(1) all_1_to_9_decimal [OF pattern_3_valid(2)]
        takes_spec_sizes [OF pattern_3_valid(1,2) le(2)], of "example_world 4 []" "ustr ''track.wav''"]
    by (simp add: sums_32_3 example_world_def at_start_def)
  with ev'(1) have "ev' = events_of Posix (ustr ''track.wav'') 1 [3, 1]" by simp
  then have g': "remix_groups ev' = [[1, 2, 3], [4]]"
    "output_files ev' = [ustr ''track[1-3].wav'', ustr ''track[4].wav'']"
    by (simp_all only: names_3_on_4 remix_groups.simps output_files.simps)
  show ?thesis
    using pattern_32_valid pattern_3_valid le ev g ev' g'
    by (intro conjI exI [of _ ev] exI [of _ ev']) assumption+
qed

subsection \<open>Output file names\<close>

lemma rfind_from_bounds:
  "rfind_from xs c i found = found \<or>
   (i \<le> rfind_from xs c i found \<and> rfind_from xs c i found < i + int (length xs))"
proof (induction xs arbitrary: i found)
  case Nil
  show ?case by simp
next
  case (Cons x xs)
  from Cons.IH [of "i + 1" "if x = c then i else found"] show ?case by auto
qed

lemma rfind_bounds: "rfind p c = - 1 \<or> (0 \<le> rfind p c \<and> rfind p c < int (length p))"
  using rfind_from_bounds [of p c 0 "- 1"] by (simp add: rfind_def)

lemma skip_leading_dots_eq:
  "b \<le> length p \<Longrightarrow>
   skip_leading_dots p x a b =
     (if list_ex (\<lambda>c. c \<noteq> x) (take (b - a) (drop a p)) then (take b p, drop b p) else (p, []))"
proof (induction p x a b rule: skip_leading_dots.induct)
  case (1 p x a b)
  show ?case
  proof (cases "a < b")
    case False
    then show ?thesis by (subst skip_leading_dots.simps) simp
  next
    case True
    with 1(2) have a: "a < length p" by simp
    then have dr: "drop a p = p ! a # drop (Suc a) p" by (simp add: Cons_nth_drop_Suc)
    from True have ba: "b - a = Suc (b - Suc a)" by simp
    show ?thesis
    proof (cases "p ! a = x")
      case False
      with True show ?thesis
        by (subst skip_leading_dots.simps) (simp add: dr ba)
    next
      case eq: True
      with True 1(1) [OF True _ 1(2)] show ?thesis
        by (subst skip_leading_dots.simps) (simp add: dr ba)
    qed
  qed
qed

lemma os_path_splitext_amended: "os_path_splitext platform p = amended_split platform p"
proof -
  define s where "s = last_separator platform p"
  define d where "d = rfind p 46"
  have gen: "os_path_splitext platform p =
      (if s < d then skip_leading_dots p 46 (nat (s + 1)) (nat d) else (p, []))"
    by (cases platform)
      (simp_all add: os_path_splitext_def genericpath_splitext_def Let_def s_def d_def
        last_separator_def)
  show ?thesis
  proof (cases "s < d")
    case False
    then show ?thesis by (simp add: gen amended_split_def has_extension_def s_def d_def)
  next
    case True
    have "- 1 \<le> s"
      using rfind_bounds [of p 47] rfind_bounds [of p 92]
      by (cases platform) (auto simp: s_def last_separator_def)
    with True have d0: "0 \<le> d" by simp
    with rfind_bounds [of p 46] have "nat d \<le> length p" by (simp add: d_def)
    from skip_leading_dots_eq [OF this, of 46 "nat (s + 1)"] True d0 show ?thesis
      by (simp add: gen amended_split_def has_extension_def spec_split_rightmost_def
          s_def [symmetric] d_def [symmetric])
  qed
qed

lemma amended_split_cases:
  "amended_split platform p = (p, []) \<or> amended_split platform p = spec_split_rightmost platform p"
  by (simp add: amended_split_def)

lemma amended_split_append: "fst (amended_split platform p) @ snd (amended_split platform p) = p"
  by (simp add: amended_split_def spec_split_rightmost_def)

lemma split_body_read:
  "split_channels_body w f P v =
     (case read_size P v of
        Inl e \<Rightarrow> Inl e
      | Inr (d, i') \<Rightarrow>
          Inr (\<lparr>channel_start = channel_start v + (if d > remaining_channels v then 1 else d),
                remaining_channels = remaining_channels v - (if d > remaining_channels v then 1 else d),
                pattern_index = i'\<rparr>,
               events_of (os_name w) f (channel_start v) [if d > remaining_channels v then 1 else d]))"
  unfolding split_channels_body_def read_size_def [symmetric]
  by (simp add: Let_def out_name_def group_label_def split: sum.split prod.split)

lemma read_size_nonneg: "read_size P v = Inr (d, i') \<Longrightarrow> 0 \<le> d"
  by (auto simp: read_size_def int_char_def split: if_splits option.splits)

lemma split_body_shape:
  assumes "split_channels_body w f P v = Inr (v', ev)"
  shows "\<exists>k. 0 \<le> k \<and> ev = events_of (os_name w) f (channel_start v) [k] \<and>
             channel_start v' = channel_start v + k \<and>
             remaining_channels v' = remaining_channels v - k"
proof (cases "read_size P v")
  case (Inl e)
  with assms show ?thesis by (simp add: split_body_read)
next
  case (Inr a)
  obtain d i' where a: "a = (d, i')" by (cases a)
  define k where "k = (if d > remaining_channels v then 1 else d)"
  from read_size_nonneg [of P v d i'] Inr a have "0 \<le> k" by (simp add: k_def)
  moreover from assms Inr a have "ev = events_of (os_name w) f (channel_start v) [k]"
    "channel_start v' = channel_start v + k" "remaining_channels v' = remaining_channels v - k"
    by (auto simp: split_body_read k_def)
  ultimately show ?thesis by blast
qed

lemma spec_label_group_label: "1 \<le> k \<Longrightarrow> spec_label s (s + k - 1) = group_label s k"
  by (auto simp: spec_label_def group_label_def)

lemma out_name_amended:
  "1 \<le> k \<Longrightarrow> out_name platform p s k = amended_output_path platform p s (s + k - 1)"
  by (simp add: out_name_def amended_output_path_def spec_label_group_label
      os_path_splitext_amended)

lemma example_round:
  assumes "list_all (\<lambda>c. 48 \<le> c \<and> c \<le> 57) P" "P \<noteq> []"
  shows "split_channels_body (example_world n there) f P v =
     Inr (next_vars P v, events_of Posix f (channel_start v) [group_size_at P v])"
  using split_body_decimal [OF assms(2) ascii_digits_decimal [OF assms(1)], of "example_world n there" f v]
  by (simp add: example_world_def)

lemma rounds_evaluated:
  "next_vars (ustr ''2'') (at_start 4) = \<lparr>channel_start = 3, remaining_channels = 2, pattern_index = 1\<rparr>"
  "group_size_at (ustr ''2'') (at_start 4) = 2"
  "next_vars (ustr ''2'') \<lparr>channel_start = 3, remaining_channels = 2, pattern_index = 0\<rparr>
     = \<lparr>channel_start = 5, remaining_channels = 0, pattern_index = 1\<rparr>"
  "group_size_at (ustr ''2'') \<lparr>channel_start = 3, remaining_channels = 2, pattern_index = 0\<rparr> = 2"
  "next_vars (ustr ''1'') (at_start 4) = \<lparr>channel_start = 2, remaining_channels = 3, pattern_index = 1\<rparr>"
  "group_size_at (ustr ''1'') (at_start 4) = 1"
  "channel_start (at_start 4) = 1"
  by (simp_all add: next_vars_def group_size_at_def pattern_digit_def digit_of_def ustr_def
      decimal_value_ascii at_start_def)

lemma names_evaluated:
  "events_of Posix (ustr ''.hidden'') 1 [2] =
     [Sox_remix (ustr ''.hidden'') (ustr ''.hidden[1-2]'') [1, 2],
      Print (Saved (ustr ''.hidden[1-2]''))]"
  "events_of Posix (ustr ''mix.v2/take'') 1 [2] =
     [Sox_remix (ustr ''mix.v2/take'') (ustr ''mix.v2/take[1-2]'') [1, 2],
      Print (Saved (ustr ''mix.v2/take[1-2]''))]"
  "events_of Posix (ustr ''track.wav'') 3 [2] =
     [Sox_remix (ustr ''track.wav'') (ustr ''track[3-4].wav'') [3, 4],
      Print (Saved (ustr ''track[3-4].wav''))]"
  "events_of Posix (ustr ''track.wav'') 1 [1] =
     [Sox_remix (ustr ''track.wav'') (ustr ''track[1].wav'') [1],
      Print (Saved (ustr ''track[1].wav''))]"
  "spec_output_path Posix (ustr ''.hidden'') 1 2 = ustr ''[1-2].hidden''"
  "ustr ''.hidden[1-2]'' \<noteq> ustr ''[1-2].hidden''"
  "spec_output_path Posix (ustr ''mix.v2/take'') 1 2 = ustr ''mix.v2/take[1-2]''"
  "spec_output_path Posix (ustr ''track.wav'') 3 4 = ustr ''track[3-4].wav''"
  by code_simp+

lemma ascii_patterns:
  "list_all (\<lambda>c. 48 \<le> c \<and> c \<le> 57) (ustr ''2'')" "ustr ''2'' \<noteq> []"
  "list_all (\<lambda>c. 48 \<le> c \<and> c \<le> 57) (ustr ''1'')" "ustr ''1'' \<noteq> []"
  by (simp_all add: ustr_def)

lemma round_track_3_4:
  "split_channels_body (example_world 4 []) (ustr ''track.wav'') (ustr ''2'')
      \<lparr>channel_start = 3, remaining_channels = 2, pattern_index = 0\<rparr>
     = Inr (\<lparr>channel_start = 5, remaining_channels = 0, pattern_index = 1\<rparr>,
            [Sox_remix (ustr ''track.wav'') (ustr ''track[3-4].wav'') [3, 4],
             Print (Saved (ustr ''track[3-4].wav''))])"
  by (simp only: example_round [OF ascii_patterns(1,2)] rounds_evaluated names_evaluated
      loop_vars.simps)

lemma round_track_1:
  "split_channels_body (example_world 4 []) (ustr ''track.wav'') (ustr ''1'') (at_start 4)
     = Inr (\<lparr>channel_start = 2, remaining_channels = 3, pattern_index = 1\<rparr>,
            [Sox_remix (ustr ''track.wav'') (ustr ''track[1].wav'') [1],
             Print (Saved (ustr ''track[1].wav''))])"
  by (simp only: example_round [OF ascii_patterns(3,4)] rounds_evaluated names_evaluated
      loop_vars.simps)

lemma round_mix_take:
  "split_channels_body (example_world 4 []) (ustr ''mix.v2/take'') (ustr ''2'') (at_start 4)
     = Inr (\<lparr>channel_start = 3, remaining_channels = 2, pattern_index = 1\<rparr>,
            [Sox_remix (ustr ''mix.v2/take'') (ustr ''mix.v2/take[1-2]'') [1, 2],
             Print (Saved (ustr ''mix.v2/take[1-2]''))])"
  by (simp only: example_round [OF ascii_patterns(1,2)] rounds_evaluated names_evaluated
      loop_vars.simps)

lemma extensions_evaluated:
  "has_extension Posix (ustr ''track.wav'')"
  "rfind (ustr ''mix.v2/take'') 46 \<le> last_separator Posix (ustr ''mix.v2/take'')"
  by code_simp+

text \<open>
  C6, as stated: the output path of a group from \<open>s\<close> to \<open>e\<close> is the input path split
  at the rightmost dot of its file name, with the label in brackets between the two
  parts. The program does not do that for the file \<^verbatim>\<open>.hidden\<close>, whose only dot is its
  first character: it writes \<^verbatim>\<open>.hidden[1-2]\<close>, and the rule gives \<^verbatim>\<open>[1-2].hidden\<close>.
\<close>

theorem output_path_counterexample:
  "split_channels_body (example_world 4 []) (ustr ''.hidden'') (ustr ''2'') (at_start 4)
     = Inr (\<lparr>channel_start = 3, remaining_channels = 2, pattern_index = 1\<rparr>,
            [Sox_remix (ustr ''.hidden'') (ustr ''.hidden[1-2]'') [1, 2],
             Print (Saved (ustr ''.hidden[1-2]''))]) \<and>
   spec_output_path Posix (ustr ''.hidden'') 1 2 = ustr ''[1-2].hidden'' \<and>
   ustr ''.hidden[1-2]'' \<noteq> spec_output_path Posix (ustr ''.hidden'') 1 2"
  by (simp only: example_round [OF ascii_patterns(1,2)] rounds_evaluated names_evaluated
      loop_vars.simps simp_thms)

text \<open>
  C6, amended. Every round of the writing loop calls the backend once and prints once,
  and for a non-empty group from \<open>s\<close> to \<open>e\<close> the output path is base, \<^verbatim>\<open>[\<close>, label,
  \<^verbatim>\<open>]\<close>, extension, where the label is \<^verbatim>\<open>s\<close> for a single channel and \<^verbatim>\<open>s-e\<close>
  otherwise, and (base, extension) is the input path split at the rightmost dot of its
  file name when a character other than a dot comes before that dot in the file name,
  and is the whole path with an empty extension otherwise. The output path is the one
  of the claim as stated for every path whose file name has such a dot or has no dot.
  The path is a function of the input path and the group.
\<close>

theorem output_path_amended:
  assumes "split_channels_body w f P v = Inr (v', ev)"
  shows "(\<exists>out g. ev = [Sox_remix f out g, Print (Saved out)] \<and>
           (g \<noteq> [] \<longrightarrow> out = amended_output_path (os_name w) f (hd g) (last g))) \<and>
         (\<forall>s e. has_extension (os_name w) f \<or> rfind f 46 \<le> last_separator (os_name w) f \<longrightarrow>
            amended_output_path (os_name w) f s e = spec_output_path (os_name w) f s e)"
proof -
  from split_body_shape [OF assms] obtain k where
    k: "0 \<le> k" and ev: "ev = events_of (os_name w) f (channel_start v) [k]"
    by blast
  define s where "s = channel_start v"
  have "out_name (os_name w) f s k = amended_output_path (os_name w) f (hd [s .. s + k - 1]) (last [s .. s + k - 1])"
    if "[s .. s + k - 1] \<noteq> []"
  proof -
    from that have k1: "1 \<le> k" by (simp add: upto_Nil2 not_less) 
    then have h: "hd [s .. s + k - 1] = s" by (simp add: upto_rec1)
    from k1 have l: "last [s .. s + k - 1] = s + k - 1" by (simp add: upto_rec2)
    show ?thesis unfolding h l by (rule out_name_amended [OF k1])
  qed
  moreover have "amended_split (os_name w) f = spec_split_rightmost (os_name w) f"
    if "has_extension (os_name w) f \<or> rfind f 46 \<le> last_separator (os_name w) f"
    using that by (auto simp: amended_split_def spec_split_rightmost_def)
  ultimately show ?thesis using ev
    by (simp add: s_def amended_output_path_def spec_output_path_def)
qed

text \<open>
  The input \<^verbatim>\<open>track.wav\<close>: the group 3-4 is written to \<^verbatim>\<open>track[3-4].wav\<close> and the
  group 1 to \<^verbatim>\<open>track[1].wav\<close>. The input \<^verbatim>\<open>mix.v2/take\<close>, with a dot in the directory
  name only: the group 1-2 is written to \<^verbatim>\<open>mix.v2/take[1-2]\<close>, as the claim has it.
\<close>

theorem output_path_amended_witness:
  "split_channels_body (example_world 4 []) (ustr ''track.wav'') (ustr ''2'')
      \<lparr>channel_start = 3, remaining_channels = 2, pattern_index = 0\<rparr>
     = Inr (\<lparr>channel_start = 5, remaining_channels = 0, pattern_index = 1\<rparr>,
            [Sox_remix (ustr ''track.wav'') (ustr ''track[3-4].wav'') [3, 4],
             Print (Saved (ustr ''track[3-4].wav''))]) \<and>
   amended_output_path Posix (ustr ''track.wav'') 3 4 = ustr ''track[3-4].wav'' \<and>
   has_extension Posix (ustr ''track.wav'') \<and>
   spec_output_path Posix (ustr ''track.wav'') 3 4 = ustr ''track[3-4].wav'' \<and>
   split_channels_body (example_world 4 []) (ustr ''track.wav'') (ustr ''1'') (at_start 4)
     = Inr (\<lparr>channel_start = 2, remaining_channels = 3, pattern_index = 1\<rparr>,
            [Sox_remix (ustr ''track.wav'') (ustr ''track[1].wav'') [1],
             Print (Saved (ustr ''track[1].wav''))]) \<and>
   amended_output_path Posix (ustr ''track.wav'') 1 1 = ustr ''track[1].wav'' \<and>
   split_channels_body (example_world 4 []) (ustr ''mix.v2/take'') (ustr ''2'') (at_start 4)
     = Inr (\<lparr>channel_start = 3, remaining_channels = 2, pattern_index = 1\<rparr>,
            [Sox_remix (ustr ''mix.v2/take'') (ustr ''mix.v2/take[1-2]'') [1, 2],
             Print (Saved (ustr ''mix.v2/take[1-2]''))]) \<and>
   rfind (ustr ''mix.v2/take'') 46 \<le> last_separator Posix (ustr ''mix.v2/take'') \<and>
   spec_output_path Posix (ustr ''mix.v2/take'') 1 2 = ustr ''mix.v2/take[1-2]''"
proof -
  have os: "os_name (example_world 4 []) = Posix" by (simp add: example_world_def)
  from output_path_amended [OF round_track_3_4]
  have a: "amended_output_path Posix (ustr ''track.wav'') 3 4 = ustr ''track[3-4].wav''"
    by (simp add: os)
  from output_path_amended [OF round_track_3_4] extensions_evaluated(1)
  have a': "spec_output_path Posix (ustr ''track.wav'') 3 4 = ustr ''track[3-4].wav''"
    by (simp add: os)
  from output_path_amended [OF round_track_1]
  have b: "amended_output_path Posix (ustr ''track.wav'') 1 1 = ustr ''track[1].wav''"
    by (simp add: os)
  from output_path_amended [OF round_mix_take] extensions_evaluated(2)
  have c: "spec_output_path Posix (ustr ''mix.v2/take'') 1 2 = ustr ''mix.v2/take[1-2]''"
    by (simp add: os)
  from a a' b c round_track_3_4 round_track_1 round_mix_take extensions_evaluated
  show ?thesis by (intro conjI)
qed

subsection \<open>Distinct output files\<close>

lemma digits_of_chars: "c \<in> set (digits_of n) \<Longrightarrow> 48 \<le> c \<and> c \<le> 57"
proof (induction n rule: digits_of.induct)
  case (1 n)
  show ?case
  proof (cases "n < 10")
    case True
    with 1(2) show ?thesis by (subst (asm) digits_of.simps) simp
  next
    case False
    from 1(2) have "c \<in> set (digits_of (n div 10)) \<or> c = 48 + n mod 10"
      using False by (subst (asm) digits_of.simps) auto
    with 1(1) [OF False] show ?thesis by auto
  qed
qed

lemma decimal_number_digits_of: "decimal_number (digits_of n) = n"
proof (induction n rule: digits_of.induct)
  case (1 n)
  show ?case
  proof (cases "n < 10")
    case True
    then show ?thesis by (subst digits_of.simps) (simp add: decimal_number_def)
  next
    case False
    with 1 [OF False] show ?thesis
      by (subst digits_of.simps) (simp add: decimal_number_def)
  qed
qed

lemma digits_of_inj: "digits_of n = digits_of m \<Longrightarrow> n = m"
  by (metis decimal_number_digits_of)

lemma label_before_hyphen:
  assumes "0 \<le> s"
  shows "takeWhile (\<lambda>c. c \<noteq> 45) (group_label s k) = digits_of (nat s)"
proof -
  have no: "\<And>c. c \<in> set (digits_of (nat s)) \<Longrightarrow> c \<noteq> 45"
    using digits_of_chars by fastforce
  then have "takeWhile (\<lambda>c. c \<noteq> 45) (digits_of (nat s)) = digits_of (nat s)"
    by (simp add: takeWhile_eq_all_conv)
  moreover have "takeWhile (\<lambda>c. c \<noteq> 45) (digits_of (nat s) @ 45 # r) = digits_of (nat s)" for r
    using no by (simp add: takeWhile_tail)
  ultimately show ?thesis using assms
    by (simp add: group_label_def str_int_def ustr_def)
qed

lemma group_label_inj:
  assumes "0 \<le> s" "0 \<le> s'" "group_label s k = group_label s' k'"
  shows "s = s'"
proof -
  have "digits_of (nat s) = digits_of (nat s')"
    using label_before_hyphen [OF assms(1), of k] label_before_hyphen [OF assms(2), of k'] assms(3)
    by simp
  from digits_of_inj [OF this] assms(1,2) show ?thesis by simp
qed

lemma out_name_inj:
  assumes "0 \<le> s" "0 \<le> s'" "out_name pl f s k = out_name pl f s' k'"
  shows "s = s'"
proof -
  from assms(3) have "group_label s k = group_label s' k'"
    by (simp add: out_name_def)
  with assms(1,2) show ?thesis by (rule group_label_inj)
qed

lemma output_files_events_of:
  "x \<in> set (output_files (events_of pl f s ks)) \<Longrightarrow> list_all (\<lambda>k. 0 \<le> k) ks \<Longrightarrow>
     \<exists>s' k'. s \<le> s' \<and> x = out_name pl f s' k'"
proof (induction ks arbitrary: s)
  case Nil
  then show ?case by simp
next
  case (Cons k ks)
  from Cons.prems(2) have k: "0 \<le> k" and ks: "list_all (\<lambda>k. 0 \<le> k) ks" by simp_all
  from Cons.prems(1) consider "x = out_name pl f s k"
    | "x \<in> set (output_files (events_of pl f (s + k) ks))" by auto
  then show ?case
  proof cases
    case 1
    then show ?thesis by auto
  next
    case 2
    from Cons.IH [OF 2 ks] obtain s' k' where "s + k \<le> s'" "x = out_name pl f s' k'" by blast
    with k show ?thesis by (intro exI [of _ s'] exI [of _ k']) simp
  qed
qed

lemma distinct_output_files_events_of:
  "list_all (\<lambda>k. 1 \<le> k) ks \<Longrightarrow> 0 \<le> s \<Longrightarrow> distinct (output_files (events_of pl f s ks))"
proof (induction ks arbitrary: s)
  case Nil
  show ?case by simp
next
  case (Cons k ks)
  from Cons.prems(1) have k: "1 \<le> k" and ks: "list_all (\<lambda>k. 1 \<le> k) ks" by simp_all
  then have ks0: "list_all (\<lambda>k. 0 \<le> k) ks" by (auto simp: list_all_iff)
  have "out_name pl f s k \<notin> set (output_files (events_of pl f (s + k) ks))"
  proof
    assume "out_name pl f s k \<in> set (output_files (events_of pl f (s + k) ks))"
    from output_files_events_of [OF this ks0] obtain s' k' where
      s': "s + k \<le> s'" "out_name pl f s k = out_name pl f s' k'" by blast
    from out_name_inj [OF Cons.prems(2) _ s'(2)] s'(1) Cons.prems(2) k show False by simp
  qed
  moreover have "distinct (output_files (events_of pl f (s + k) ks))"
    using Cons.IH [OF ks, of "s + k"] Cons.prems(2) k by simp
  ultimately show ?case by simp
qed

lemma split_while_shape:
  assumes "split_channels_while w f P v = Some r"
  shows "\<forall>ev. r = Inr ev \<longrightarrow>
     (\<exists>ks. list_all (\<lambda>k. 0 \<le> k) ks \<and> ev = events_of (os_name w) f (channel_start v) ks)"
  using assms
proof (induct rule: split_channels_while.raw_induct [rotated 1, consumes 1, case_names round])
  case (round loop w f P v r)
  show ?case
  proof (intro allI impI)
    fix ev
    assume r: "r = Inr ev"
    show "\<exists>ks. list_all (\<lambda>k. 0 \<le> k) ks \<and> ev = events_of (os_name w) f (channel_start v) ks"
    proof (cases "0 < remaining_channels v")
      case False
      with round(2) r have "ev = []" by simp
      then show ?thesis by (intro exI [of _ "[]"]) simp
    next
      case True
      with round(2) r obtain v' ev1 later where
        body: "split_channels_body w f P v = Inr (v', ev1)"
        and later: "loop w f P v' = Some later" and em: "Inr ev = emit ev1 later"
        by (auto simp: bind_eq_Some_conv split: sum.splits)
      from em obtain ev' where ev': "later = Inr ev'" "ev = ev1 @ ev'"
        by (cases later) (auto simp: emit_def)
      from split_body_shape [OF body] obtain k where
        k: "0 \<le> k" "ev1 = events_of (os_name w) f (channel_start v) [k]"
          "channel_start v' = channel_start v + k"
        by blast
      from round(1) [OF later] ev'(1) obtain ks where
        ks: "list_all (\<lambda>k. 0 \<le> k) ks" "ev' = events_of (os_name w) f (channel_start v') ks"
        by blast
      from k ks ev'(2) show ?thesis by (intro exI [of _ "k # ks"]) simp
    qed
  qed
qed

lemma groups_nonempty_sizes:
  "[] \<notin> set (remix_groups (events_of pl f s ks)) \<Longrightarrow> list_all (\<lambda>k. 1 \<le> k) ks"
  by (induction ks arbitrary: s) (auto simp: not_less)

lemma length_output_files: "length (output_files ev) = length (remix_groups ev)"
  by (induction ev rule: remix_groups.induct) simp_all

text \<open>
  C8. For every input path, in every run of the writing loop that returns and whose
  groups are non-empty ranges (their starts then increase strictly), the output paths
  are pairwise distinct: two different groups of the run never get the same file.
\<close>

theorem output_names_distinct:
  assumes "split_channels_while w f P (at_start N) = Some (Inr ev)"
    and "[] \<notin> set (remix_groups ev)"
  shows "length (output_files ev) = length (remix_groups ev) \<and> distinct (output_files ev) \<and>
         (\<forall>i j. i < j \<and> j < length (remix_groups ev) \<longrightarrow> output_files ev ! i \<noteq> output_files ev ! j)"
proof -
  from split_while_shape [OF assms(1)] obtain ks where
    ks: "list_all (\<lambda>k. 0 \<le> k) ks" and ev: "ev = events_of (os_name w) f 1 ks"
    by (auto simp: at_start_def)
  from assms(2) have "list_all (\<lambda>k. 1 \<le> k) ks"
    unfolding ev by (rule groups_nonempty_sizes)
  then have d: "distinct (output_files ev)"
    unfolding ev by (rule distinct_output_files_events_of) simp
  then show ?thesis
    by (auto simp: length_output_files distinct_conv_nth)
qed

text \<open>The pattern \<^verbatim>\<open>32\<close> on the seven channels of \<^verbatim>\<open>track.wav\<close>.\<close>

theorem output_names_distinct_witness:
  "split_channels_while (example_world 7 []) (ustr ''track.wav'') (ustr ''32'') (at_start 7)
     = Some (Inr (events_of Posix (ustr ''track.wav'') 1 [3, 2, 2])) \<and>
   remix_groups (events_of Posix (ustr ''track.wav'') 1 [3, 2, 2]) = [[1, 2, 3], [4, 5], [6, 7]] \<and>
   [] \<notin> set (remix_groups (events_of Posix (ustr ''track.wav'') 1 [3, 2, 2])) \<and>
   output_files (events_of Posix (ustr ''track.wav'') 1 [3, 2, 2])
     = [ustr ''track[1-3].wav'', ustr ''track[4-5].wav'', ustr ''track[6-7].wav''] \<and>
   distinct (output_files (events_of Posix (ustr ''track.wav'') 1 [3, 2, 2]))"
proof -
  have g: "remix_groups (events_of Posix (ustr ''track.wav'') 1 [3, 2, 2]) = [[1, 2, 3], [4, 5], [6, 7]]"
    and o: "output_files (events_of Posix (ustr ''track.wav'') 1 [3, 2, 2])
     = [ustr ''track[1-3].wav'', ustr ''track[4-5].wav'', ustr ''track[6-7].wav'']"
    by (simp_all only: names_32_on_7 remix_groups.simps output_files.simps)
  have ne: "[] \<notin> set (remix_groups (events_of Posix (ustr ''track.wav'') 1 [3, 2, 2]))"
    unfolding g by simp
  from output_names_distinct [OF run_32_on_7 [of "[]"] ne]
  have "distinct (output_files (events_of Posix (ustr ''track.wav'') 1 [3, 2, 2]))" by blast
  with run_32_on_7 [of "[]"] g o ne show ?thesis by (intro conjI)
qed

subsection \<open>\<^verbatim>\<open>split_channels\<close> and \<^verbatim>\<open>main\<close>\<close>

lemma check_files_exist_eq:
  "channel_count w f = Some N \<Longrightarrow>
   check_files_exist w f P =
     map_option (map_sum id (\<lambda>ev. filter (path_exists w) (output_files ev)))
       (split_channels_while w f P (at_start N))"
  by (simp add: check_files_exist_def check_while_eq at_start_def)

lemma split_channels_eq:
  assumes "channel_count w f = Some N" "validate_grouping_pattern P N = Inr (printed, True)"
  shows "split_channels w cmd f P stdin =
     (case split_channels_while w f P (at_start N) of
        None \<Rightarrow> None
      | Some (Inl e) \<Rightarrow> Some (Inl e)
      | Some (Inr ev) \<Rightarrow>
          if filter (path_exists w) (output_files ev) = []
          then Some (Inr (Print (Total_channels f N) # ev, stdin))
          else (case stdin of
                  [] \<Rightarrow> Some (Inl EOFError)
                | user_input # stdin' \<Rightarrow>
                    if str_lower user_input \<noteq> ustr ''y''
                    then Some (Inr (prompt_events f N (filter (path_exists w) (output_files ev))
                                    @ [Print Exiting_without_changes], stdin'))
                    else Some (Inr (prompt_events f N (filter (path_exists w) (output_files ev))
                                    @ ev, stdin'))))"
proof (cases "split_channels_while w f P (at_start N)")
  case None
  then show ?thesis
    using assms by (simp add: split_channels_def check_files_exist_eq)
next
  case (Some r)
  show ?thesis
  proof (cases r)
    case (Inl e)
    with Some show ?thesis
      using assms by (simp add: split_channels_def check_files_exist_eq)
  next
    case (Inr ev)
    with Some have run: "split_channels_while w f P
        \<lparr>channel_start = 1, remaining_channels = N, pattern_index = 0\<rparr> = Some (Inr ev)"
      by (simp add: at_start_def)
    from Some Inr have chk: "check_files_exist w f P
        = Some (Inr (filter (path_exists w) (output_files ev)))"
      using assms(1) by (simp add: check_files_exist_eq)
    show ?thesis
      unfolding split_channels_def
      by (simp add: assms chk run Some Inr Let_def prompt_events_def split: list.split)
  qed
qed

lemma bind_Some_map_option: "Option.bind x (\<lambda>y. Some (g y)) = map_option g x"
  by (cases x) simp_all

lemma after_events_prints: "remix_groups ev = [] \<Longrightarrow> after_events backend ev w = w"
  by (induction ev rule: remix_groups.induct) simp_all

lemma str_lower_y: "str_lower r = ustr ''y'' \<longleftrightarrow> r = ustr ''y'' \<or> r = ustr ''Y''"
proof -
  have "lower_char c = 121 \<longleftrightarrow> c = 121 \<or> c = 89" for c
    by (auto simp: lower_char_def)
  then show ?thesis
    by (cases r) (auto simp: str_lower_def ustr_def)
qed

lemma process_files_step:
  assumes "isfile w f" "split_channels w cmd f P stdin = Some (Inr (ev, stdin'))"
  shows "process_files backend w cmd P (f # files) stdin =
     map_option (map_sum id (\<lambda>(ev', left). (ev @ ev', left)))
       (process_files backend (after_events backend ev w) cmd P files stdin')"
  using assms by (simp add: bind_Some_map_option)

lemma pattern_3_takes: "takes_sizes (ustr ''3'') (at_start 4) [3, 1]"
  by (simp add: at_start_def group_size_at_def pattern_digit_def digit_of_def ustr_def
      decimal_value_ascii next_vars_def)

lemma run_3_on_4:
  "split_channels_while (example_world 4 there) f (ustr ''3'') (at_start 4)
     = Some (Inr (events_of Posix f 1 [3, 1]))"
  using split_while_takes_sizes [OF pattern_3_valid(1) all_1_to_9_decimal [OF pattern_3_valid(2)]
      pattern_3_takes, of "example_world 4 there" f]
  by (simp add: example_world_def at_start_def)

lemma example_world_fields:
  "channel_count (example_world n there) f = Some n"
  "path_exists (example_world n there) = (\<lambda>p. p \<in> set there)"
  "isfile (example_world n there) f"
  "sox_found (example_world n there) = Some (ustr ''sox'')"
  "os_name (example_world n there) = Posix"
  by (simp_all add: example_world_def)

lemma check_3_on_4:
  "check_files_exist (example_world 4 [ustr ''track[4].wav'']) (ustr ''track.wav'') (ustr ''3'')
     = Some (Inr [ustr ''track[4].wav''])"
proof -
  have "filter (\<lambda>p. p \<in> set [ustr ''track[4].wav''])
          (output_files (events_of Posix (ustr ''track.wav'') 1 [3, 1])) = [ustr ''track[4].wav'']"
    unfolding names_3_on_4 by (simp add: ustr_def)
  then show ?thesis
    by (simp add: check_files_exist_eq [OF example_world_fields(1)] run_3_on_4
        example_world_fields(2))
qed

lemma answers_evaluated:
  "str_lower (ustr ''yes'') \<noteq> ustr ''y''" "str_lower (ustr ''Y es'') \<noteq> ustr ''y''"
  "str_lower [] \<noteq> ustr ''y''" "str_lower (ustr ''Y'') = ustr ''y''"
  by (simp_all add: str_lower_def lower_char_def ustr_def)

text \<open>
  C10. When \<open>split_channels\<close> reaches the overwrite prompt (the channel count is read,
  the pattern is valid and \<^verbatim>\<open>check_files_exist\<close> has found files), it goes on to the
  writing loop exactly when the answer in lower case is \<^verbatim>\<open>y\<close>, that is when the answer
  is \<^verbatim>\<open>y\<close> or \<^verbatim>\<open>Y\<close>; on any other answer it prints that it leaves without changes
  and returns with no backend call, and \<^verbatim>\<open>main\<close> goes on with the files after this
  one, in the same world: a batch of this file alone ends with what was printed, and a
  longer batch ends as the batch of the files after this one does, with these prints
  before.
\<close>

theorem overwrite_prompt:
  assumes "channel_count w f = Some N"
    and "validate_grouping_pattern P N = Inr (printed, True)"
    and "check_files_exist w f P = Some (Inr existing)" "existing \<noteq> []"
  shows "\<exists>ev. split_channels_while w f P (at_start N) = Some (Inr ev) \<and>
     existing = filter (path_exists w) (output_files ev) \<and>
     split_channels w cmd f P (response # stdin) =
       (if str_lower response = ustr ''y''
        then Some (Inr (prompt_events f N existing @ ev, stdin))
        else Some (Inr (prompt_events f N existing @ [Print Exiting_without_changes], stdin))) \<and>
     remix_groups (prompt_events f N existing @ [Print Exiting_without_changes]) = [] \<and>
     (str_lower response \<noteq> ustr ''y'' \<and> isfile w f \<longrightarrow>
        process_files backend w cmd P (f # files) (response # stdin) =
          map_option
            (map_sum id (\<lambda>(ev', left).
               ((prompt_events f N existing @ [Print Exiting_without_changes]) @ ev', left)))
            (process_files backend w cmd P files stdin)) \<and>
     (str_lower response \<noteq> ustr ''y'' \<and> isfile w f \<longrightarrow>
        process_files backend w cmd P [f] (response # stdin) =
          Some (Inr (prompt_events f N existing @ [Print Exiting_without_changes], stdin))) \<and>
     (str_lower response \<noteq> ustr ''y'' \<and> isfile w f \<and> sox_found w = Some cmd \<and>
      str_isdigit P \<longrightarrow>
        main backend w (script # P # f # files) (response # stdin) =
          map_option
            (map_sum id (\<lambda>(ev', left).
               ((prompt_events f N existing @ [Print Exiting_without_changes]) @ ev', left)))
            (process_files backend w cmd P files stdin)) \<and>
     (str_lower response = ustr ''y'' \<longleftrightarrow> response = ustr ''y'' \<or> response = ustr ''Y'')"
proof -
  from assms(3) obtain ev where
    run: "split_channels_while w f P (at_start N) = Some (Inr ev)"
    and ex: "existing = filter (path_exists w) (output_files ev)"
    unfolding check_files_exist_eq [OF assms(1)]
    by (cases "split_channels_while w f P (at_start N)") (auto simp: map_sum_def split: sum.splits)
  define declined where "declined = prompt_events f N existing @ [Print Exiting_without_changes]"
  have sc: "split_channels w cmd f P (response # stdin) =
       (if str_lower response = ustr ''y''
        then Some (Inr (prompt_events f N existing @ ev, stdin))
        else Some (Inr (declined, stdin)))"
    using assms(4) by (simp add: split_channels_eq [OF assms(1,2)] run ex [symmetric] declined_def)
  have quiet: "remix_groups declined = []"
    by (simp add: declined_def prompt_events_def)
  have batch: "process_files backend w cmd P (f # fs) (response # stdin) =
          map_option (map_sum id (\<lambda>(ev', left). (declined @ ev', left)))
            (process_files backend w cmd P fs stdin)"
    if "str_lower response \<noteq> ustr ''y''" "isfile w f" for fs
  proof -
    from sc that(1) have "split_channels w cmd f P (response # stdin) = Some (Inr (declined, stdin))"
      by simp
    from process_files_step [OF that(2) this, of backend fs] show ?thesis
      by (simp only: after_events_prints [OF quiet])
  qed
  have single: "process_files backend w cmd P [f] (response # stdin) = Some (Inr (declined, stdin))"
    if "str_lower response \<noteq> ustr ''y''" "isfile w f"
    using batch [OF that, of "[]"] by simp
  have whole: "main backend w (script # P # f # files) (response # stdin) =
          map_option (map_sum id (\<lambda>(ev', left). (declined @ ev', left)))
            (process_files backend w cmd P files stdin)"
    if "str_lower response \<noteq> ustr ''y''" "isfile w f" "sox_found w = Some cmd" "str_isdigit P"
  proof -
    have "main backend w (script # P # f # files) (response # stdin)
        = process_files backend w cmd P (f # files) (response # stdin)"
      using that(3,4) by (simp add: main_def Let_def del: process_files.simps)
    with batch [OF that(1,2), of files] show ?thesis by (simp only:)
  qed
  from run ex sc quiet batch [of files] single whole str_lower_y [of response] show ?thesis
    unfolding declined_def by blast
qed

lemma names_one_two:
  "events_of Posix (ustr ''one.wav'') 1 [3, 1] =
     [Sox_remix (ustr ''one.wav'') (ustr ''one[1-3].wav'') [1, 2, 3],
      Print (Saved (ustr ''one[1-3].wav'')),
      Sox_remix (ustr ''one.wav'') (ustr ''one[4].wav'') [4],
      Print (Saved (ustr ''one[4].wav''))]"
  "events_of Posix (ustr ''two.wav'') 1 [3, 1] =
     [Sox_remix (ustr ''two.wav'') (ustr ''two[1-3].wav'') [1, 2, 3],
      Print (Saved (ustr ''two[1-3].wav'')),
      Sox_remix (ustr ''two.wav'') (ustr ''two[4].wav'') [4],
      Print (Saved (ustr ''two[4].wav''))]"
  by code_simp+

lemma check_one:
  "check_files_exist (example_world 4 [ustr ''one[4].wav'']) (ustr ''one.wav'') (ustr ''3'')
     = Some (Inr [ustr ''one[4].wav''])"
proof -
  have "filter (\<lambda>p. p \<in> set [ustr ''one[4].wav''])
          (output_files (events_of Posix (ustr ''one.wav'') 1 [3, 1])) = [ustr ''one[4].wav'']"
    unfolding names_one_two by (simp add: ustr_def)
  then show ?thesis
    by (simp add: check_files_exist_eq [OF example_world_fields(1)] run_3_on_4
        example_world_fields(2))
qed

lemma split_two:
  "split_channels (example_world 4 [ustr ''one[4].wav'']) (ustr ''sox'') (ustr ''two.wav'')
       (ustr ''3'') []
     = Some (Inr (Print (Total_channels (ustr ''two.wav'') 4)
                  # events_of Posix (ustr ''two.wav'') 1 [3, 1], []))"
proof -
  have "filter (\<lambda>p. p \<in> set [ustr ''one[4].wav''])
          (output_files (events_of Posix (ustr ''two.wav'') 1 [3, 1])) = []"
    unfolding names_one_two by (simp add: ustr_def)
  then show ?thesis
    by (simp add: split_channels_eq [OF example_world_fields(1) pattern_3_valid(3)] run_3_on_4
        example_world_fields(2))
qed

lemma batch_two:
  "process_files creates_output (example_world 4 [ustr ''one[4].wav'']) (ustr ''sox'') (ustr ''3'')
       [ustr ''two.wav''] []
     = Some (Inr (Print (Total_channels (ustr ''two.wav'') 4)
                  # events_of Posix (ustr ''two.wav'') 1 [3, 1], []))"
  using process_files_step [OF example_world_fields(3) split_two, of creates_output "[]"]
  by simp

text \<open>
  A file of four channels, the pattern \<^verbatim>\<open>3\<close>, and \<^verbatim>\<open>track[4].wav\<close> already there: the
  answers \<^verbatim>\<open>yes\<close>, \<^verbatim>\<open>Y es\<close> and the empty line leave the file alone, the answer
  \<^verbatim>\<open>Y\<close> has both groups written. And a batch of \<^verbatim>\<open>one.wav\<close> and \<^verbatim>\<open>two.wav\<close> where
  \<^verbatim>\<open>one[4].wav\<close> is there and the answer is \<^verbatim>\<open>n\<close>: \<^verbatim>\<open>main\<close> leaves the first file
  alone and has both groups of the second written.
\<close>

theorem overwrite_prompt_witness:
  "channel_count (example_world 4 [ustr ''track[4].wav'']) (ustr ''track.wav'') = Some 4 \<and>
   validate_grouping_pattern (ustr ''3'') 4 = Inr ([], True) \<and>
   check_files_exist (example_world 4 [ustr ''track[4].wav'']) (ustr ''track.wav'') (ustr ''3'')
     = Some (Inr [ustr ''track[4].wav'']) \<and>
   split_channels (example_world 4 [ustr ''track[4].wav'']) (ustr ''sox'') (ustr ''track.wav'')
       (ustr ''3'') [ustr ''yes'', ustr ''y'']
     = Some (Inr ([Print (Total_channels (ustr ''track.wav'') 4),
                   Print (Existing_files [ustr ''track[4].wav'']), Print Overwrite_prompt,
                   Print Exiting_without_changes], [ustr ''y''])) \<and>
   split_channels (example_world 4 [ustr ''track[4].wav'']) (ustr ''sox'') (ustr ''track.wav'')
       (ustr ''3'') [ustr ''Y es'']
     = Some (Inr ([Print (Total_channels (ustr ''track.wav'') 4),
                   Print (Existing_files [ustr ''track[4].wav'']), Print Overwrite_prompt,
                   Print Exiting_without_changes], [])) \<and>
   split_channels (example_world 4 [ustr ''track[4].wav'']) (ustr ''sox'') (ustr ''track.wav'')
       (ustr ''3'') [[]]
     = Some (Inr ([Print (Total_channels (ustr ''track.wav'') 4),
                   Print (Existing_files [ustr ''track[4].wav'']), Print Overwrite_prompt,
                   Print Exiting_without_changes], [])) \<and>
   split_channels (example_world 4 [ustr ''track[4].wav'']) (ustr ''sox'') (ustr ''track.wav'')
       (ustr ''3'') [ustr ''Y'']
     = Some (Inr ([Print (Total_channels (ustr ''track.wav'') 4),
                   Print (Existing_files [ustr ''track[4].wav'']), Print Overwrite_prompt,
                   Sox_remix (ustr ''track.wav'') (ustr ''track[1-3].wav'') [1, 2, 3],
                   Print (Saved (ustr ''track[1-3].wav'')),
                   Sox_remix (ustr ''track.wav'') (ustr ''track[4].wav'') [4],
                   Print (Saved (ustr ''track[4].wav''))], [])) \<and>
   check_files_exist (example_world 4 [ustr ''one[4].wav'']) (ustr ''one.wav'') (ustr ''3'')
     = Some (Inr [ustr ''one[4].wav'']) \<and>
   main creates_output (example_world 4 [ustr ''one[4].wav''])
       [ustr ''channel-splitter.py'', ustr ''3'', ustr ''one.wav'', ustr ''two.wav''] [ustr ''n'']
     = Some (Inr ([Print (Total_channels (ustr ''one.wav'') 4),
                   Print (Existing_files [ustr ''one[4].wav'']), Print Overwrite_prompt,
                   Print Exiting_without_changes,
                   Print (Total_channels (ustr ''two.wav'') 4),
                   Sox_remix (ustr ''two.wav'') (ustr ''two[1-3].wav'') [1, 2, 3],
                   Print (Saved (ustr ''two[1-3].wav'')),
                   Sox_remix (ustr ''two.wav'') (ustr ''two[4].wav'') [4],
                   Print (Saved (ustr ''two[4].wav''))], []))"
proof -
  define W where "W = example_world 4 [ustr ''track[4].wav'']"
  have ne: "[ustr ''track[4].wav''] \<noteq> []" by simp
  have cc: "channel_count W (ustr ''track.wav'') = Some 4"
    by (simp add: W_def example_world_fields)
  note chk = check_3_on_4 [folded W_def]
  note inst = overwrite_prompt [OF cc pattern_3_valid(3) chk ne, of "ustr ''sox''"]
  have run: "split_channels_while W (ustr ''track.wav'') (ustr ''3'') (at_start 4)
     = Some (Inr (events_of Posix (ustr ''track.wav'') 1 [3, 1]))"
    by (simp add: W_def run_3_on_4)
  have a: "split_channels W (ustr ''sox'') (ustr ''track.wav'') (ustr ''3'') [ustr ''yes'', ustr ''y'']
     = Some (Inr (prompt_events (ustr ''track.wav'') 4 [ustr ''track[4].wav'']
          @ [Print Exiting_without_changes], [ustr ''y'']))"
    using inst [of "ustr ''yes''" "[ustr ''y'']"] by (auto simp: answers_evaluated)
  have b: "split_channels W (ustr ''sox'') (ustr ''track.wav'') (ustr ''3'') [ustr ''Y es'']
     = Some (Inr (prompt_events (ustr ''track.wav'') 4 [ustr ''track[4].wav'']
          @ [Print Exiting_without_changes], []))"
    using inst [of "ustr ''Y es''" "[]"] by (auto simp: answers_evaluated)
  have c: "split_channels W (ustr ''sox'') (ustr ''track.wav'') (ustr ''3'') [[]]
     = Some (Inr (prompt_events (ustr ''track.wav'') 4 [ustr ''track[4].wav'']
          @ [Print Exiting_without_changes], []))"
    using inst [of "[]" "[]"] by (auto simp: answers_evaluated)
  have d: "split_channels W (ustr ''sox'') (ustr ''track.wav'') (ustr ''3'') [ustr ''Y'']
     = Some (Inr (prompt_events (ustr ''track.wav'') 4 [ustr ''track[4].wav'']
          @ events_of Posix (ustr ''track.wav'') 1 [3, 1], []))"
    using inst [of "ustr ''Y''" "[]"] by (auto simp: answers_evaluated run)
  define V where "V = example_world 4 [ustr ''one[4].wav'']"
  have n: "str_lower (ustr ''n'') \<noteq> ustr ''y''" "str_isdigit (ustr ''3'')"
    "[ustr ''one[4].wav''] \<noteq> []"
    by (simp_all add: str_lower_def lower_char_def ustr_def str_isdigit_def isdigit_char_def
        decimal_value_ascii)
  have isf: "isfile V (ustr ''one.wav'')" and sox: "sox_found V = Some (ustr ''sox'')"
    and cv: "channel_count V (ustr ''one.wav'') = Some 4"
    by (simp_all add: V_def example_world_fields)
  from overwrite_prompt [OF cv pattern_3_valid(3) check_one [folded V_def] n(3),
        where response = "ustr ''n''" and stdin = "[]" and cmd = "ustr ''sox''"
          and backend = creates_output and files = "[ustr ''two.wav'']"
          and script = "ustr ''channel-splitter.py''"]
      n(1,2) isf sox
  have "main creates_output V
       [ustr ''channel-splitter.py'', ustr ''3'', ustr ''one.wav'', ustr ''two.wav''] [ustr ''n'']
     = map_option
         (map_sum id (\<lambda>(ev', left).
            ((prompt_events (ustr ''one.wav'') 4 [ustr ''one[4].wav'']
               @ [Print Exiting_without_changes]) @ ev', left)))
         (process_files creates_output V (ustr ''sox'') (ustr ''3'') [ustr ''two.wav''] [])"
    by blast
  then have e: "main creates_output V
       [ustr ''channel-splitter.py'', ustr ''3'', ustr ''one.wav'', ustr ''two.wav''] [ustr ''n'']
     = Some (Inr ((prompt_events (ustr ''one.wav'') 4 [ustr ''one[4].wav'']
                     @ [Print Exiting_without_changes])
                  @ Print (Total_channels (ustr ''two.wav'') 4)
                    # events_of Posix (ustr ''two.wav'') 1 [3, 1], []))"
    unfolding batch_two [folded V_def] by simp
  from cc pattern_3_valid(3) chk a b c d check_one [folded V_def] e show ?thesis
    unfolding W_def [symmetric] V_def [symmetric] names_3_on_4 names_one_two prompt_events_def
    by simp
qed

subsection \<open>The syntax check of the pattern\<close>

lemma ascii_isdigit: "48 \<le> c \<Longrightarrow> c \<le> 57 \<Longrightarrow> isdigit_char c"
  by (simp add: isdigit_char_def decimal_value_ascii)

lemma isdigit_ascii_only:
  assumes "isdigit_char c" "c < 128"
  shows "48 \<le> c \<and> c \<le> 57"
proof -
  have zeros: "\<forall>z \<in> set decimal_zeros. z < 128 \<longrightarrow> z = 48"
    by (simp add: decimal_zeros_def)
  have ranges: "\<forall>(lo, hi) \<in> set digit_only_ranges. 128 \<le> lo"
    by (simp add: digit_only_ranges_def)
  from assms(1) consider z where "z \<in> set decimal_zeros" "z \<le> c" "c \<le> z + 9"
    | lo hi where "(lo, hi) \<in> set digit_only_ranges" "lo \<le> c"
    by (auto simp: isdigit_char_def decimal_value_def find_None_iff list_ex_iff)
  then show ?thesis
  proof cases
    case 1
    with zeros assms(2) have "z = 48" by auto
    with 1 show ?thesis by simp
  next
    case 2
    with ranges assms(2) show ?thesis by fastforce
  qed
qed

lemma matches_isdigit: "spec_matches_digits s \<Longrightarrow> str_isdigit s"
  by (auto simp: spec_matches_digits_def str_isdigit_def list_all_iff ascii_isdigit)

lemma arabic_indic:
  "decimal_value 1635 = Some 3" "decimal_value 1634 = Some 2"
  by (simp_all add: decimal_value_def decimal_zeros_def)

lemma arabic_indic_pattern:
  "str_isdigit [1635, 1634]" "list_all is_decimal [1635, 1634]" "[1635, 1634] \<noteq> []"
  "\<not> spec_rejects [1635, 1634] 7" "takes_sizes [1635, 1634] (at_start 7) [3, 2, 2]"
  "\<not> spec_matches_digits [1635, 1634]"
  by (simp_all add: str_isdigit_def isdigit_char_def is_decimal_def arabic_indic spec_rejects_def
      digit_of_def at_start_def group_size_at_def pattern_digit_def next_vars_def
      spec_matches_digits_def)

text \<open>
  C9, as stated: every argument that does not match \<^verbatim>\<open>^[0-9]+$\<close> is rejected and no
  file is processed. The argument U+0663 U+0662, the Arabic-Indic digits three and two,
  does not match, and the program takes it for the pattern 32: it splits the seven
  channels of \<^verbatim>\<open>track.wav\<close> into three files.
\<close>

theorem syntax_check_counterexample:
  "\<not> spec_matches_digits [1635, 1634] \<and>
   main creates_output (example_world 7 [])
     [ustr ''channel-splitter.py'', [1635, 1634], ustr ''track.wav''] []
   = Some (Inr ([Print (Total_channels (ustr ''track.wav'') 7),
                 Sox_remix (ustr ''track.wav'') (ustr ''track[1-3].wav'') [1, 2, 3],
                 Print (Saved (ustr ''track[1-3].wav'')),
                 Sox_remix (ustr ''track.wav'') (ustr ''track[4-5].wav'') [4, 5],
                 Print (Saved (ustr ''track[4-5].wav'')),
                 Sox_remix (ustr ''track.wav'') (ustr ''track[6-7].wav'') [6, 7],
                 Print (Saved (ustr ''track[6-7].wav''))], []))"
proof -
  define W where "W = example_world 7 []"
  define f where "f = ustr ''track.wav''"
  have run: "split_channels_while W f [1635, 1634] (at_start 7)
      = Some (Inr (events_of Posix f 1 [3, 2, 2]))"
    using split_while_takes_sizes [OF arabic_indic_pattern(3,2,5), of W f]
    by (simp add: W_def example_world_fields at_start_def)
  have v: "validate_grouping_pattern [1635, 1634] 7 = Inr ([], True)"
    using validate_decimal [OF arabic_indic_pattern(2), of 7] arabic_indic_pattern(4)
    by (simp add: spec_rejects_def)
  have cc: "channel_count W f = Some 7" by (simp add: W_def example_world_fields)
  have sc: "split_channels W (ustr ''sox'') f [1635, 1634] []
      = Some (Inr (Print (Total_channels f 7) # events_of Posix f 1 [3, 2, 2], []))"
    by (simp add: split_channels_eq [OF cc v] run) (simp add: W_def example_world_fields)
  have "isfile W f" by (simp add: W_def example_world_fields)
  from process_files_step [OF this sc, of creates_output "[]"]
  have "process_files creates_output W (ustr ''sox'') [1635, 1634] [f] []
      = Some (Inr (Print (Total_channels f 7) # events_of Posix f 1 [3, 2, 2], []))"
    by simp
  then have "main creates_output W [ustr ''channel-splitter.py'', [1635, 1634], f] []
      = Some (Inr (Print (Total_channels f 7) # events_of Posix f 1 [3, 2, 2], []))"
    by (simp add: main_def W_def example_world_fields arabic_indic_pattern(1))
  with arabic_indic_pattern(6) show ?thesis
    unfolding W_def f_def names_32_on_7 by simp
qed

text \<open>
  C9, amended. With SoX found and at least two arguments: when the pattern argument is
  empty or has a character that is not a Unicode digit (\<^verbatim>\<open>str.isdigit\<close>), \<^verbatim>\<open>main\<close>
  prints that the pattern must consist of digits only and ends, with no file looked at;
  when the argument matches \<^verbatim>\<open>^[0-9]+$\<close>, \<^verbatim>\<open>main\<close> goes on to the input files. An
  ASCII character other than \<^verbatim>\<open>0\<close> to \<^verbatim>\<open>9\<close> is not a digit, so an ASCII argument
  is rejected exactly when it does not match.
\<close>

theorem syntax_check_amended:
  assumes "sox_found w = Some sox_command" "3 \<le> length argv"
  shows "(argv ! 1 = [] \<or> list_ex (\<lambda>c. \<not> isdigit_char c) (argv ! 1) \<longrightarrow>
            main backend w argv stdin = Some (Inr ([Print Digits_only], stdin))) \<and>
         (spec_matches_digits (argv ! 1) \<longrightarrow>
            main backend w argv stdin
              = process_files backend w sox_command (argv ! 1) (drop 2 argv) stdin) \<and>
         (\<forall>c. c < 128 \<and> \<not> (48 \<le> c \<and> c \<le> 57) \<longrightarrow> \<not> isdigit_char c)"
proof -
  have "main backend w argv stdin = Some (Inr ([Print Digits_only], stdin))"
    if "argv ! 1 = [] \<or> list_ex (\<lambda>c. \<not> isdigit_char c) (argv ! 1)"
  proof -
    from that have "\<not> str_isdigit (argv ! 1)"
      by (auto simp: str_isdigit_def list_all_iff list_ex_iff)
    with assms show ?thesis by (simp add: main_def)
  qed
  moreover have "main backend w argv stdin
      = process_files backend w sox_command (argv ! 1) (drop 2 argv) stdin"
    if "spec_matches_digits (argv ! 1)"
    using assms matches_isdigit [OF that] by (simp add: main_def)
  ultimately show ?thesis using isdigit_ascii_only by blast
qed

text \<open>The arguments \<^verbatim>\<open>3x\<close> and the empty string are rejected, \<^verbatim>\<open>32\<close> passes.\<close>

theorem syntax_check_amended_witness:
  "sox_found (example_world 7 []) = Some (ustr ''sox'') \<and>
   3 \<le> length [ustr ''channel-splitter.py'', ustr ''3x'', ustr ''track.wav''] \<and>
   list_ex (\<lambda>c. \<not> isdigit_char c) (ustr ''3x'') \<and>
   main creates_output (example_world 7 [])
      [ustr ''channel-splitter.py'', ustr ''3x'', ustr ''track.wav''] []
     = Some (Inr ([Print Digits_only], [])) \<and>
   main creates_output (example_world 7 [])
      [ustr ''channel-splitter.py'', [], ustr ''track.wav''] []
     = Some (Inr ([Print Digits_only], [])) \<and>
   spec_matches_digits (ustr ''32'') \<and>
   main creates_output (example_world 7 [])
      [ustr ''channel-splitter.py'', ustr ''32'', ustr ''track.wav''] []
     = process_files creates_output (example_world 7 []) (ustr ''sox'') (ustr ''32'')
         [ustr ''track.wav''] []"
proof -
  have sox: "sox_found (example_world 7 []) = Some (ustr ''sox'')"
    by (rule example_world_fields)
  have x: "list_ex (\<lambda>c. \<not> isdigit_char c) (ustr ''3x'')"
    using isdigit_ascii_only [of 120] by (auto simp: ustr_def)
  have m: "spec_matches_digits (ustr ''32'')"
    by (simp add: spec_matches_digits_def ustr_def)
  have l: "3 \<le> length [ustr ''channel-splitter.py'', p, ustr ''track.wav'']" for p by simp
  from syntax_check_amended [OF sox l, of "ustr ''3x''" creates_output "[]"] x
  have a: "main creates_output (example_world 7 [])
      [ustr ''channel-splitter.py'', ustr ''3x'', ustr ''track.wav''] []
     = Some (Inr ([Print Digits_only], []))" by simp
  from syntax_check_amended [OF sox l, of "[]" creates_output "[]"]
  have b: "main creates_output (example_world 7 [])
      [ustr ''channel-splitter.py'', [], ustr ''track.wav''] []
     = Some (Inr ([Print Digits_only], []))" by simp
  from syntax_check_amended [OF sox l, of "ustr ''32''" creates_output "[]"] m
  have c: "main creates_output (example_world 7 [])
      [ustr ''channel-splitter.py'', ustr ''32'', ustr ''track.wav''] []
     = process_files creates_output (example_world 7 []) (ustr ''sox'') (ustr ''32'')
         [ustr ''track.wav''] []" by simp
  from sox l x a b m c show ?thesis by (intro conjI)
qed

subsection \<open>The digit 0\<close>

lemma stuck_round:
  assumes "0 < remaining_channels v" "P \<noteq> []" "length P \<le> pattern_index v"
    and "decimal_value (last P) = Some 0"
  shows "split_channels_body w f P v = Inr (v, events_of (os_name w) f (channel_start v) [0])"
proof -
  from assms(2-4) have "read_size P v = Inr (0, pattern_index v)"
    by (simp add: read_size_def int_char_def)
  with assms(1) show ?thesis by (simp add: split_body_read)
qed

lemma stuck_never_returns:
  assumes "split_channels_while w f P v = Some r"
  shows "\<not> (0 < remaining_channels v \<and> P \<noteq> [] \<and> length P \<le> pattern_index v \<and>
            decimal_value (last P) = Some 0)"
  using assms
proof (induct rule: split_channels_while.raw_induct [rotated 1, consumes 1, case_names round])
  case (round loop w f P v r)
  show ?case
  proof
    assume stuck: "0 < remaining_channels v \<and> P \<noteq> [] \<and> length P \<le> pattern_index v \<and>
            decimal_value (last P) = Some 0"
    then have "split_channels_body w f P v = Inr (v, events_of (os_name w) f (channel_start v) [0])"
      by (intro stuck_round) simp_all
    with round(2) stuck obtain later where "loop w f P v = Some later"
      by (auto simp: bind_eq_Some_conv)
    from round(1) [OF this] stuck show False by simp
  qed
qed

lemma split_while_round_None:
  assumes "P \<noteq> []" "list_all is_decimal P" "0 < remaining_channels v"
    and "split_channels_while w f P (next_vars P v) = None"
  shows "split_channels_while w f P v = None"
  using assms(3,4)
  by (subst split_channels_while.simps) (simp add: split_body_decimal [OF assms(1,2)])

lemma pattern_20:
  "str_isdigit (ustr ''20'')" "ustr ''20'' \<noteq> []" "list_all is_decimal (ustr ''20'')"
  "validate_grouping_pattern (ustr ''20'') 4 = Inr ([], True)"
  "decimal_value (last (ustr ''20'')) = Some 0"
  "next_vars (ustr ''20'') (at_start 4)
     = \<lparr>channel_start = 3, remaining_channels = 2, pattern_index = 1\<rparr>"
  "next_vars (ustr ''20'') \<lparr>channel_start = 3, remaining_channels = 2, pattern_index = 1\<rparr>
     = \<lparr>channel_start = 3, remaining_channels = 2, pattern_index = 2\<rparr>"
  "group_size_at (ustr ''20'') (at_start 4) = 2"
  by (simp_all add: str_isdigit_def ustr_def ascii_isdigit is_decimal_def decimal_value_ascii
      validate_grouping_pattern_def int_char_def next_vars_def group_size_at_def
      pattern_digit_def digit_of_def at_start_def)

lemma names_20:
  "events_of Posix (ustr ''track.wav'') 1 [2] =
     [Sox_remix (ustr ''track.wav'') (ustr ''track[1-2].wav'') [1, 2],
      Print (Saved (ustr ''track[1-2].wav''))]"
  "events_of Posix (ustr ''track.wav'') 3 [0] =
     [Sox_remix (ustr ''track.wav'') (ustr ''track[3-2].wav'') [],
      Print (Saved (ustr ''track[3-2].wav''))]"
  by code_simp+

text \<open>
  C5. The claim is that a pattern with the digit 0 is rejected before any partitioning.
  The program does not reject it: for a file of four channels the pattern \<^verbatim>\<open>20\<close> passes
  the syntax check and \<^verbatim>\<open>validate_grouping_pattern\<close>; the first round of the writing loop
  takes the channels 1-2; once the pattern is used up every round reads the size 0 and
  leaves the loop variables as they are, with two channels remaining, so neither loop
  returns, and neither do \<^verbatim>\<open>check_files_exist\<close> and \<^verbatim>\<open>main\<close>.
\<close>

theorem zero_digit_not_rejected:
  "str_isdigit (ustr ''20'') \<and>
   validate_grouping_pattern (ustr ''20'') 4 = Inr ([], True) \<and>
   split_channels_body (example_world 4 []) (ustr ''track.wav'') (ustr ''20'') (at_start 4)
     = Inr (\<lparr>channel_start = 3, remaining_channels = 2, pattern_index = 1\<rparr>,
            [Sox_remix (ustr ''track.wav'') (ustr ''track[1-2].wav'') [1, 2],
             Print (Saved (ustr ''track[1-2].wav''))]) \<and>
   split_channels_body (example_world 4 []) (ustr ''track.wav'') (ustr ''20'')
       \<lparr>channel_start = 3, remaining_channels = 2, pattern_index = 2\<rparr>
     = Inr (\<lparr>channel_start = 3, remaining_channels = 2, pattern_index = 2\<rparr>,
            [Sox_remix (ustr ''track.wav'') (ustr ''track[3-2].wav'') [],
             Print (Saved (ustr ''track[3-2].wav''))]) \<and>
   split_channels_while (example_world 4 []) (ustr ''track.wav'') (ustr ''20'') (at_start 4) = None \<and>
   check_files_exist (example_world 4 []) (ustr ''track.wav'') (ustr ''20'') = None \<and>
   main creates_output (example_world 4 [])
     [ustr ''channel-splitter.py'', ustr ''20'', ustr ''track.wav''] [] = None"
proof -
  define W where "W = example_world 4 []"
  define f where "f = ustr ''track.wav''"
  define v1 where "v1 = \<lparr>channel_start = 3, remaining_channels = 2, pattern_index = 1\<rparr>"
  define v2 where "v2 = \<lparr>channel_start = 3, remaining_channels = 2, pattern_index = 2\<rparr>"
  have os: "os_name W = Posix" by (simp add: W_def example_world_fields)
  have first: "split_channels_body W f (ustr ''20'') (at_start 4) = Inr (v1, events_of Posix f 1 [2])"
    by (simp add: split_body_decimal [OF pattern_20(2,3)] pattern_20 os v1_def)
      (simp add: at_start_def)
  have "0 < remaining_channels v2" "length (ustr ''20'') \<le> pattern_index v2"
    by (simp_all add: v2_def ustr_def)
  note stuck = this(1) pattern_20(2) this(2) pattern_20(5)
  have round: "split_channels_body W f (ustr ''20'') v2 = Inr (v2, events_of Posix f 3 [0])"
    using stuck_round [OF stuck, of W f] by (simp add: os) (simp add: v2_def)
  have n2: "split_channels_while W f (ustr ''20'') v2 = None"
    using stuck_never_returns [of W f "ustr ''20''" v2] stuck
    by (cases "split_channels_while W f (ustr ''20'') v2") auto
  have n1: "split_channels_while W f (ustr ''20'') v1 = None"
  proof (rule split_while_round_None [OF pattern_20(2,3)])
    show "0 < remaining_channels v1" by (simp add: v1_def)
    have "next_vars (ustr ''20'') v1 = v2" unfolding v1_def v2_def by (rule pattern_20(7))
    with n2 show "split_channels_while W f (ustr ''20'') (next_vars (ustr ''20'') v1) = None"
      by (simp only:)
  qed
  have none: "split_channels_while W f (ustr ''20'') (at_start 4) = None"
  proof (rule split_while_round_None [OF pattern_20(2,3)])
    show "0 < remaining_channels (at_start 4)" by (simp add: at_start_def)
    have "next_vars (ustr ''20'') (at_start 4) = v1" unfolding v1_def by (rule pattern_20(6))
    with n1 show "split_channels_while W f (ustr ''20'') (next_vars (ustr ''20'') (at_start 4)) = None"
      by (simp only:)
  qed
  have cc: "channel_count W f = Some 4" by (simp add: W_def example_world_fields)
  have chk: "check_files_exist W f (ustr ''20'') = None"
    by (simp add: check_files_exist_eq [OF cc] none)
  have sc: "split_channels W (ustr ''sox'') f (ustr ''20'') [] = None"
    by (simp add: split_channels_eq [OF cc pattern_20(4)] none)
  have isf: "isfile W f" and sox: "sox_found W = Some (ustr ''sox'')"
    by (simp_all add: W_def example_world_fields)
  have pf: "process_files creates_output W (ustr ''sox'') (ustr ''20'') [f] [] = None"
    by (simp add: isf sc)
  have "main creates_output W [ustr ''channel-splitter.py'', ustr ''20'', f] []
      = process_files creates_output W (ustr ''sox'') (ustr ''20'') [f] []"
    by (simp add: main_def Let_def pattern_20(1) sox del: process_files.simps)
  with pf have "main creates_output W [ustr ''channel-splitter.py'', ustr ''20'', f] [] = None"
    by (simp only:)
  with pattern_20(1,4) first round none chk show ?thesis
    unfolding W_def f_def v1_def v2_def names_20 by (intro conjI)
qed

end
